theory Spec2Isabelle
  imports Complex_Main "HOL-Library.Multiset"
begin

section \<open>The document store\<close>

text \<open>
  The handlers of \<^verbatim>\<open>convex/users.ts\<close> run against two tables of a hosted document
  store, \<^verbatim>\<open>users\<close> and \<^verbatim>\<open>podcasts\<close>. A table is the list of its documents in the
  order \<^verbatim>\<open>collect()\<close> yields them. Every document carries the two system fields
  \<^verbatim>\<open>_id\<close> and \<^verbatim>\<open>_creationTime\<close>, written \<open>docId\<close> and \<open>creationTime\<close> here
  (an Isabelle name cannot start with an underscore). Document ids are opaque;
  they are natural numbers handed out by the counter \<open>nextId\<close>.
\<close>

type_synonym doc_id = nat

record user =
  docId :: doc_id
  creationTime :: int
  clerkId :: string
  email :: string
  imageUrl :: string
  name :: string

text \<open>
  A podcast document has the fields of \<^verbatim>\<open>PodcastProps\<close>; its field \<^verbatim>\<open>user\<close> is
  written \<open>owner\<close>. The field \<open>views\<close> is a counter; it is an integer here, on
  which the subtraction of the sort comparator is exact.
\<close>

record podcast =
  docId :: doc_id
  creationTime :: int
  audioStorageId :: "doc_id option"
  owner :: doc_id
  podcastTitle :: string
  podcastDescription :: string
  audioUrl :: "string option"
  imageUrl :: "string option"
  imageStorageId :: "doc_id option"
  author :: string
  authorId :: string
  authorImageUrl :: string
  voicePrompt :: string
  imagePrompt :: "string option"
  voiceType :: string
  audioDuration :: int
  views :: int

record store =
  users :: "user list"
  podcasts :: "podcast list"
  nextId :: doc_id
  clock :: int

text \<open>
  What a handler can throw: a \<^verbatim>\<open>ConvexError\<close> with its message, the error of
  \<^verbatim>\<open>unique()\<close> on more than one result, and the error of \<^verbatim>\<open>patch\<close> and
  \<^verbatim>\<open>delete\<close> on an id that is not in the table.
\<close>

datatype error = ConvexError string | NotUnique | MissingDocument

text \<open>\<^verbatim>\<open>.unique()\<close>: the single result, \<^verbatim>\<open>null\<close> when there is none, an error otherwise.\<close>

fun unique :: "'a list \<Rightarrow> error + 'a option" where
  "unique [] = Inr None"
| "unique [x] = Inr (Some x)"
| "unique (x # y # zs) = Inl NotUnique"

text \<open>\<^verbatim>\<open>db.patch(id, fields)\<close> and \<^verbatim>\<open>db.delete(id)\<close> on one table, \<open>f\<close> writing the fields.\<close>

definition patch :: "('a \<Rightarrow> doc_id) \<Rightarrow> doc_id \<Rightarrow> ('a \<Rightarrow> 'a) \<Rightarrow> 'a list \<Rightarrow> error + 'a list" where
  "patch ident i f ds =
     (if i \<in> set (map ident ds)
      then Inr (map (\<lambda>d. if ident d = i then f d else d) ds)
      else Inl MissingDocument)"

definition delete :: "('a \<Rightarrow> doc_id) \<Rightarrow> doc_id \<Rightarrow> 'a list \<Rightarrow> error + 'a list" where
  "delete ident i ds =
     (if i \<in> set (map ident ds)
      then Inr (filter (\<lambda>d. ident d \<noteq> i) ds)
      else Inl MissingDocument)"

text \<open>
  \<^verbatim>\<open>db.insert("users", {clerkId, email, imageUrl, name})\<close>: the store adds the system
  fields and appends the document.
\<close>

definition insert_user :: "store \<Rightarrow> string \<Rightarrow> string \<Rightarrow> string \<Rightarrow> string \<Rightarrow> store" where
  "insert_user db cid em img nm =
     db\<lparr>users := users db @
           [\<lparr>user.docId = nextId db, creationTime = clock db, clerkId = cid,
             email = em, imageUrl = img, name = nm\<rparr>],
        nextId := Suc (nextId db)\<rparr>"

text \<open>
  A mutation is a transaction: when the handler throws, none of its writes is
  kept. A handler returns the error or the store it leaves; \<open>commit\<close> is the store
  after the call. (The handlers below throw their own errors before their first
  write, so that nothing is there to undo.)
\<close>

definition commit :: "store \<Rightarrow> error + store \<Rightarrow> store" where
  "commit db r = (case r of Inl e \<Rightarrow> db | Inr db' \<Rightarrow> db')"

section \<open>The user gateway\<close>

definition getUserById :: "store \<Rightarrow> string \<Rightarrow> error + user" where
  "getUserById db cid =
     (case unique (filter (\<lambda>u. clerkId u = cid) (users db)) of
        Inl e \<Rightarrow> Inl e
      | Inr None \<Rightarrow> Inl (ConvexError ''User not found'')
      | Inr (Some u) \<Rightarrow> Inr u)"

definition createUser :: "store \<Rightarrow> string \<Rightarrow> string \<Rightarrow> string \<Rightarrow> string \<Rightarrow> error + store" where
  "createUser db cid em img nm =
     (case unique (filter (\<lambda>u. clerkId u = cid) (users db)) of
        Inl e \<Rightarrow> Inl e
      | Inr (Some existingUser) \<Rightarrow> Inl (ConvexError ''User already exists'')
      | Inr None \<Rightarrow> Inr (insert_user db cid em img nm))"

text \<open>
  The cascade of \<^verbatim>\<open>updateUser\<close>: one \<^verbatim>\<open>patch\<close> per podcast that the query returned,
  issued in the order of the array.
\<close>

fun patch_each :: "string \<Rightarrow> podcast list \<Rightarrow> podcast list \<Rightarrow> error + podcast list" where
  "patch_each img [] tbl = Inr tbl"
| "patch_each img (p # ps) tbl =
     (case patch podcast.docId (podcast.docId p) (\<lambda>d. d\<lparr>authorImageUrl := img\<rparr>) tbl of
        Inl e \<Rightarrow> Inl e
      | Inr tbl' \<Rightarrow> patch_each img ps tbl')"

definition updateUser :: "store \<Rightarrow> string \<Rightarrow> string \<Rightarrow> string \<Rightarrow> error + store" where
  "updateUser db cid img em =
     (case unique (filter (\<lambda>u. clerkId u = cid) (users db)) of
        Inl e \<Rightarrow> Inl e
      | Inr None \<Rightarrow> Inl (ConvexError ''User not found'')
      | Inr (Some u) \<Rightarrow>
          (case patch user.docId (user.docId u)
                  (\<lambda>d. d\<lparr>user.imageUrl := img, email := em\<rparr>) (users db) of
             Inl e \<Rightarrow> Inl e
           | Inr us \<Rightarrow>
               (case patch_each img (filter (\<lambda>p. authorId p = cid) (podcasts db)) (podcasts db) of
                  Inl e \<Rightarrow> Inl e
                | Inr ps \<Rightarrow> Inr (db\<lparr>users := us, podcasts := ps\<rparr>))))"

definition deleteUser :: "store \<Rightarrow> string \<Rightarrow> error + store" where
  "deleteUser db cid =
     (case unique (filter (\<lambda>u. clerkId u = cid) (users db)) of
        Inl e \<Rightarrow> Inl e
      | Inr None \<Rightarrow> Inl (ConvexError ''User not found'')
      | Inr (Some u) \<Rightarrow>
          (case delete user.docId (user.docId u) (users db) of
             Inl e \<Rightarrow> Inl e
           | Inr us \<Rightarrow> Inr (db\<lparr>users := us\<rparr>)))"

text \<open>
  The data model's invariant on the \<^verbatim>\<open>users\<close> table (no two records share a
  \<open>clerkId\<close>), and the store's own guarantee that ids are not reused.
\<close>

definition clerk_unique :: "store \<Rightarrow> bool" where
  "clerk_unique db = distinct (map clerkId (users db))"

definition ids_fresh :: "store \<Rightarrow> bool" where
  "ids_fresh db =
     (distinct (map user.docId (users db)) \<and> distinct (map podcast.docId (podcasts db)) \<and>
      list_all (\<lambda>u. user.docId u < nextId db) (users db))"

definition store_ok :: "store \<Rightarrow> bool" where
  "store_ok db = (clerk_unique db \<and> ids_fresh db)"

definition empty_store :: "int \<Rightarrow> store" where
  "empty_store t = \<lparr>users = [], podcasts = [], nextId = 0, clock = t\<rparr>"

section \<open>The ranking aggregation\<close>

text \<open>
  \<^verbatim>\<open>Array.prototype.sort(cmp)\<close> is a stable sort: \<open>x\<close> goes before \<open>y\<close> when
  \<open>cmp x y\<close> is negative, and elements that compare equal keep their order.
\<close>

fun insort_by :: "('a \<Rightarrow> 'a \<Rightarrow> int) \<Rightarrow> 'a \<Rightarrow> 'a list \<Rightarrow> 'a list" where
  "insort_by cmp x [] = [x]"
| "insort_by cmp x (y # ys) =
     (if cmp x y \<le> 0 then x # y # ys else y # insort_by cmp x ys)"

definition sort_by :: "('a \<Rightarrow> 'a \<Rightarrow> int) \<Rightarrow> 'a list \<Rightarrow> 'a list" where
  "sort_by cmp xs = foldr (insort_by cmp) xs []"

record podcast_ref =
  podcastTitle :: string
  podcastId :: doc_id

text \<open>An element of the result: the user document spread, then the two new fields.\<close>

record top_podcaster = user +
  totalPodcasts :: nat
  podcast :: "podcast_ref list"

definition userData :: "store \<Rightarrow> user \<Rightarrow> top_podcaster" where
  "userData db u =
     (let podcasts = filter (\<lambda>p. authorId p = clerkId u) (podcasts db);
          sortedPodcasts = sort_by (\<lambda>a b. views b - views a) podcasts;
          podcastObjects =
            map (\<lambda>p. \<lparr>podcastTitle = podcast.podcastTitle p, podcastId = podcast.docId p\<rparr>)
              sortedPodcasts
      in user.extend u
           (top_podcaster.fields (length podcasts) podcastObjects))"

definition getTopUserByPodcastCount :: "store \<Rightarrow> top_podcaster list" where
  "getTopUserByPodcastCount db =
     sort_by (\<lambda>a b. int (totalPodcasts b) - int (totalPodcasts a))
       (map (userData db) (users db))"

section \<open>The playback selection\<close>

record audio_props =
  title :: string
  audioUrl :: string
  author :: string
  imageUrl :: string
  podcastId :: string

text \<open>
  The setter of \<^verbatim>\<open>useState\<close> takes a \<^verbatim>\<open>SetStateAction\<close>: the new value, or a
  function from the previous value to the new one.
\<close>

datatype 'a set_state_action = Value 'a | Updater "'a \<Rightarrow> 'a"

fun apply_action :: "'a set_state_action \<Rightarrow> 'a \<Rightarrow> 'a" where
  "apply_action (Value v) prev = v"
| "apply_action (Updater f) prev = f prev"

text \<open>
  An instance of \<^verbatim>\<open>AudioProvider\<close>: the state cell \<open>audio\<close>, the route that
  \<^verbatim>\<open>usePathname\<close> returns, and the dependency array \<^verbatim>\<open>[pathname]\<close> with which the
  effect last ran (\<open>None\<close> before its first run).
\<close>

record provider =
  audio :: "audio_props option"
  pathname :: string
  deps :: "string option"

text \<open>
  \<^verbatim>\<open>useEffect(..., [pathname])\<close> after a render: the effect runs when the
  dependency differs from the one of its last run.
\<close>

definition effect :: "provider \<Rightarrow> provider" where
  "effect s =
     (if deps s = Some (pathname s) then s
      else if pathname s = ''/create-podcast''
           then s\<lparr>audio := None, deps := Some (pathname s)\<rparr>
           else s\<lparr>deps := Some (pathname s)\<rparr>)"

definition mount :: "string \<Rightarrow> provider" where
  "mount p = effect \<lparr>audio = None, pathname = p, deps = None\<rparr>"

datatype provider_event = SetAudio "audio_props option set_state_action" | Route string

fun step :: "provider \<Rightarrow> provider_event \<Rightarrow> provider" where
  "step s (SetAudio a) = effect (s\<lparr>audio := apply_action a (audio s)\<rparr>)"
| "step s (Route p) = effect (s\<lparr>pathname := p\<rparr>)"

definition run :: "provider \<Rightarrow> provider_event list \<Rightarrow> provider" where
  "run s evs = foldl step s evs"


text \<open>The value the provider hands to its children.\<close>

record audio_context_type =
  audio :: "audio_props option"
  setAudio :: "audio_props option set_state_action \<Rightarrow> provider"

definition context_value :: "provider \<Rightarrow> audio_context_type" where
  "context_value s =
     \<lparr>audio = provider.audio s, setAudio = (\<lambda>a. step s (SetAudio a))\<rparr>"

text \<open>
  \<^verbatim>\<open>useContext(AudioContext)\<close> in a component, given the \<^verbatim>\<open>AudioProvider\<close>
  instances that enclose it, innermost first: the value of the nearest one, or
  the default of \<^verbatim>\<open>createContext\<close>, which is \<^verbatim>\<open>undefined\<close>.
\<close>

fun useContext :: "provider list \<Rightarrow> audio_context_type option" where
  "useContext [] = None"
| "useContext (s # outer) = Some (context_value s)"

datatype js_error = Error string

definition useAudio_message :: string where
  "useAudio_message =
     ''useAudio must be used within an AudioProvider. This hook is used to get the current audio player state and to update the state. If you'' @ [CHR 0x27] @ ''re trying to use useAudio outside of an AudioProvider, you need to wrap your app with the AudioProvider component.''"

definition useAudio :: "provider list \<Rightarrow> js_error + audio_context_type" where
  "useAudio enclosing =
     (case useContext enclosing of
        None \<Rightarrow> Inl (Error useAudio_message)
      | Some context \<Rightarrow> Inr context)"

section \<open>The time formatter\<close>

text \<open>
  A JavaScript number is an IEEE 754 double: a finite value, an infinity or
  NaN. A finite value is carried as the real number it denotes (the two zeros
  are not told apart; no operation of \<^verbatim>\<open>formatTime\<close> does).
\<close>

datatype number = Finite real | PosInfinity | NegInfinity | NaN

text \<open>
  \<open>round_double\<close> rounds a real number to the nearest double, a tie going to the
  even significand. A double has 53 bits of significand: its spacing is
  \<open>2 ^ (e - 52)\<close> where \<open>2 ^ e\<close> is the power of two at or below it, \<open>e\<close> not going
  below -1022; what rounds to \<open>2 ^ 1024\<close> is an infinity.
\<close>

fun ilog2 :: "nat \<Rightarrow> nat" where
  "ilog2 n = (if n < 2 then 0 else Suc (ilog2 (n div 2)))"

definition binary_exponent :: "real \<Rightarrow> int" where
  "binary_exponent x =
     (if 1 \<le> x then int (ilog2 (nat \<lfloor>x\<rfloor>))
      else - int (Suc (ilog2 (nat \<lceil>1 / x\<rceil> - 1))))"

definition ulp :: "real \<Rightarrow> real" where
  "ulp x = 2 powi (max (binary_exponent x) (- 1022) - 52)"

definition round_half_even :: "real \<Rightarrow> int" where
  "round_half_even q =
     (if q - of_int \<lfloor>q\<rfloor> < 1 / 2 then \<lfloor>q\<rfloor>
      else if 1 / 2 < q - of_int \<lfloor>q\<rfloor> then \<lfloor>q\<rfloor> + 1
      else if even \<lfloor>q\<rfloor> then \<lfloor>q\<rfloor> else \<lfloor>q\<rfloor> + 1)"

definition round_double :: "real \<Rightarrow> number" where
  "round_double x =
     (if x = 0 then Finite 0
      else if 2 ^ 1024 \<le> of_int (round_half_even (\<bar>x\<bar> / ulp \<bar>x\<bar>)) * ulp \<bar>x\<bar>
      then (if 0 < x then PosInfinity else NegInfinity)
      else Finite (sgn x * (of_int (round_half_even (\<bar>x\<bar> / ulp \<bar>x\<bar>)) * ulp \<bar>x\<bar>)))"

text \<open>The real numbers that are doubles: rounding leaves them as they are.\<close>

definition is_double :: "real \<Rightarrow> bool" where
  "is_double x = (round_double x = Finite x)"

text \<open>
  The operators of \<^verbatim>\<open>formatTime\<close>, with a positive finite constant on the right
  as 60 and 10 are. \<^verbatim>\<open>/\<close> rounds the quotient to a double; \<^verbatim>\<open>%\<close> gives the
  remainder with the sign of the dividend, which is a double as it is;
  \<^verbatim>\<open>Math.floor\<close> and \<^verbatim>\<open><\<close> are exact.
\<close>

fun js_div :: "number \<Rightarrow> real \<Rightarrow> number" where
  "js_div (Finite x) d = round_double (x / d)"
| "js_div PosInfinity d = PosInfinity"
| "js_div NegInfinity d = NegInfinity"
| "js_div NaN d = NaN"

fun js_rem :: "number \<Rightarrow> real \<Rightarrow> number" where
  "js_rem (Finite x) d =
     Finite (x - d * of_int (if 0 \<le> x / d then \<lfloor>x / d\<rfloor> else \<lceil>x / d\<rceil>))"
| "js_rem PosInfinity d = NaN"
| "js_rem NegInfinity d = NaN"
| "js_rem NaN d = NaN"

fun Math_floor :: "number \<Rightarrow> number" where
  "Math_floor (Finite x) = Finite (of_int \<lfloor>x\<rfloor>)"
| "Math_floor PosInfinity = PosInfinity"
| "Math_floor NegInfinity = NegInfinity"
| "Math_floor NaN = NaN"

fun js_less :: "number \<Rightarrow> real \<Rightarrow> bool" where
  "js_less (Finite x) c = (x < c)"
| "js_less PosInfinity c = False"
| "js_less NegInfinity c = True"
| "js_less NaN c = False"

text \<open>
  The string of a number in a template literal. An integral number below
  \<open>2 ^ 53\<close> in absolute value is written with all its decimal digits, a minus
  sign in front of a negative one. What is written for another finite number
  (the shortest digits that read back as the same double, in exponent form from
  \<open>10 ^ 21\<close> on) is the parameter \<open>big\<close>.
\<close>

fun show_nat :: "nat \<Rightarrow> string" where
  "show_nat n =
     (if n < 10 then [''0123456789'' ! n]
      else show_nat (n div 10) @ [''0123456789'' ! (n mod 10)])"

definition show_int :: "int \<Rightarrow> string" where
  "show_int i = (if i < 0 then ''-'' @ show_nat (nat (- i)) else show_nat (nat i))"

fun to_string :: "(real \<Rightarrow> string) \<Rightarrow> number \<Rightarrow> string" where
  "to_string big (Finite x) =
     (if x = of_int \<lfloor>x\<rfloor> \<and> \<bar>x\<bar> < 2 ^ 53 then show_int \<lfloor>x\<rfloor> else big x)"
| "to_string big PosInfinity = ''Infinity''"
| "to_string big NegInfinity = ''-Infinity''"
| "to_string big NaN = ''NaN''"

definition formatTime :: "(real \<Rightarrow> string) \<Rightarrow> number \<Rightarrow> string" where
  "formatTime big seconds =
     (let minutes = Math_floor (js_div seconds 60);
          remainingSeconds = Math_floor (js_rem seconds 60);
          formattedSeconds =
            (if js_less remainingSeconds 10 then ''0'' @ to_string big remainingSeconds
             else to_string big remainingSeconds)
      in to_string big minutes @ '':'' @ formattedSeconds)"

text \<open>
  The words of the specification: the remainder of the division as mathematics
  has it, and a number of seconds with a leading zero when it is under 10.
\<close>

definition real_mod :: "real \<Rightarrow> real \<Rightarrow> real" where
  "real_mod x y = x - y * of_int \<lfloor>x / y\<rfloor>"

definition zero_padded :: "int \<Rightarrow> string" where
  "zero_padded z = (if z < 10 then ''0'' @ show_int z else show_int z)"

section \<open>The debounce hook\<close>

text \<open>
  What an instance of \<^verbatim>\<open>useDebounce\<close> keeps between renders: the state cell
  \<open>debouncedValue\<close>, the dependency array \<^verbatim>\<open>[value, delay]\<close> of the effect's last
  run, and the pending timeout with the time left on it (in milliseconds) and
  the value its callback captured. The hook returns \<open>debouncedValue\<close>.
\<close>

record 'a hook =
  debouncedValue :: 'a
  lastDeps :: "('a \<times> nat) option"
  timeout :: "(nat \<times> 'a) option"

text \<open>
  \<^verbatim>\<open>setTimeout\<close> takes a delay between 1 and \<open>2 ^ 31 - 1\<close> milliseconds as it is.
  What it makes of another delay depends on the runtime (Node takes 1; a
  browser reduces the delay modulo \<open>2 ^ 32\<close> and fires at once when that is
  negative as a signed number) and is the parameter \<open>rt\<close>. Delays are whole
  milliseconds.
\<close>

definition scheduled :: "(nat \<Rightarrow> nat) \<Rightarrow> nat \<Rightarrow> nat" where
  "scheduled rt d = (if 1 \<le> d \<and> d < 2 ^ 31 then d else rt d)"

text \<open>
  A render with the arguments \<open>v\<close> and \<open>d\<close>, and the effect after it: when a
  dependency changed, the cleanup of the previous run clears its timeout and a
  new one is set.
\<close>

definition render :: "(nat \<Rightarrow> nat) \<Rightarrow> 'a \<Rightarrow> nat \<Rightarrow> 'a hook \<Rightarrow> 'a hook" where
  "render rt v d s =
     (if lastDeps s = Some (v, d) then s
      else s\<lparr>lastDeps := Some (v, d), timeout := Some (scheduled rt d, v)\<rparr>)"

text \<open>The first render: \<^verbatim>\<open>useState(value)\<close> starts the cell at the argument.\<close>

definition first_render :: "(nat \<Rightarrow> nat) \<Rightarrow> 'a \<Rightarrow> nat \<Rightarrow> 'a hook" where
  "first_render rt v d =
     render rt v d \<lparr>debouncedValue = v, lastDeps = None, timeout = None\<rparr>"

text \<open>
  Time passing: a timeout whose time is up runs its callback,
  \<^verbatim>\<open>setDebouncedValue(value)\<close>. The render this causes has the arguments of the
  last one, so its effect does not run again.
\<close>

definition elapse :: "nat \<Rightarrow> 'a hook \<Rightarrow> 'a hook" where
  "elapse t s =
     (case timeout s of
        None \<Rightarrow> s
      | Some (r, v) \<Rightarrow>
          if r \<le> t then s\<lparr>debouncedValue := v, timeout := None\<rparr>
          else s\<lparr>timeout := Some (r - t, v)\<rparr>)"

datatype 'a hook_event = Render 'a nat | Elapse nat

fun hook_step :: "(nat \<Rightarrow> nat) \<Rightarrow> 'a hook \<Rightarrow> 'a hook_event \<Rightarrow> 'a hook" where
  "hook_step rt s (Render v d) = render rt v d s"
| "hook_step rt s (Elapse t) = elapse t s"

definition hook_run :: "(nat \<Rightarrow> nat) \<Rightarrow> 'a hook \<Rightarrow> 'a hook_event list \<Rightarrow> 'a hook" where
  "hook_run rt s evs = foldl (hook_step rt) s evs"

text \<open>
  For how long the hook's arguments have been what they are now, read off the
  events since the first render with the arguments \<open>inp\<close>: the time that elapsed
  since the last render that changed them.
\<close>

fun unchanged_for :: "'a \<times> nat \<Rightarrow> nat \<Rightarrow> 'a hook_event list \<Rightarrow> nat" where
  "unchanged_for inp acc [] = acc"
| "unchanged_for inp acc (Render v d # evs) =
     (if (v, d) = inp then unchanged_for inp acc evs else unchanged_for (v, d) 0 evs)"
| "unchanged_for inp acc (Elapse t # evs) = unchanged_for inp (acc + t) evs"

text \<open>The arguments of the last render, likewise.\<close>

fun last_args :: "'a \<times> nat \<Rightarrow> 'a hook_event list \<Rightarrow> 'a \<times> nat" where
  "last_args inp [] = inp"
| "last_args inp (Render v d # evs) = last_args (v, d) evs"
| "last_args inp (Elapse t # evs) = last_args inp evs"

section \<open>Example data\<close>

text \<open>A store with two users, of whom \<open>A\<close> has three podcasts and \<open>B\<close> has one.\<close>

definition ann :: user where
  "ann = \<lparr>user.docId = 0, creationTime = 0, clerkId = ''user_1'',
          email = ''a@b.c'', imageUrl = ''a.png'', name = ''Ann''\<rparr>"

definition profile :: "doc_id \<Rightarrow> string \<Rightarrow> user" where
  "profile i c = \<lparr>user.docId = i, creationTime = 0, clerkId = c,
                  email = c @ ''@old.org'', imageUrl = ''old.png'', name = c\<rparr>"

definition episode :: "doc_id \<Rightarrow> string \<Rightarrow> string \<Rightarrow> int \<Rightarrow> podcast" where
  "episode i t a v =
     \<lparr>podcast.docId = i, creationTime = 0, audioStorageId = None, owner = 0,
      podcastTitle = t, podcastDescription = [], audioUrl = None, imageUrl = None,
      imageStorageId = None, author = a, authorId = a, authorImageUrl = ''old.png'',
      voicePrompt = [], imagePrompt = None, voiceType = ''alloy'', audioDuration = 0,
      views = v\<rparr>"

definition track :: "string \<Rightarrow> audio_props" where
  "track t = \<lparr>title = t, audioUrl = ''https://cdn/'' @ t, author = ''A'',
              imageUrl = ''a.png'', podcastId = ''4''\<rparr>"

definition demo :: store where
  "demo = \<lparr>users = [profile 0 ''B'', profile 1 ''A''],
           podcasts = [episode 2 ''p1'' ''A'' 5, episode 3 ''p2'' ''B'' 7,
                       episode 4 ''p3'' ''A'' 9, episode 5 ''p4'' ''A'' 1],
           nextId = 6, clock = 0\<rparr>"

section \<open>Queries on the users table\<close>

lemma filter_key_distinct:
  "distinct (map f xs) \<Longrightarrow> u \<in> set xs \<Longrightarrow> filter (\<lambda>x. f x = f u) xs = [u]"
proof (induction xs)
  case Nil
  then show ?case by simp
next
  case (Cons x xs)
  show ?case
  proof (cases "x = u")
    case True
    with Cons.prems have "f u \<notin> f ` set xs" by simp
    then have "\<forall>y\<in>set xs. f y \<noteq> f u" by (metis imageI)
    then have "filter (\<lambda>x. f x = f u) xs = []" by simp
    with True show ?thesis by simp
  next
    case False
    with Cons.prems have "u \<in> set xs" and "f x \<noteq> f u" by auto
    with Cons show ?thesis by simp
  qed
qed

lemma unique_absent:
  "(\<forall>u\<in>set (users db). clerkId u \<noteq> cid) \<Longrightarrow>
   unique (filter (\<lambda>u. clerkId u = cid) (users db)) = Inr None"
  by simp

lemma unique_present:
  "clerk_unique db \<Longrightarrow> u \<in> set (users db) \<Longrightarrow> clerkId u = cid \<Longrightarrow>
   unique (filter (\<lambda>x. clerkId x = cid) (users db)) = Inr (Some u)"
  using filter_key_distinct [of clerkId "users db" u] by (auto simp: clerk_unique_def)

lemma unique_error: "unique xs = Inl e \<Longrightarrow> e = NotUnique"
  by (cases xs rule: unique.cases) auto

lemma unique_None_iff: "unique xs = Inr None \<longleftrightarrow> xs = []"
  by (cases xs rule: unique.cases) auto

lemma getUserById_NotFound_iff:
  "getUserById db k = Inl (ConvexError ''User not found'') \<longleftrightarrow>
     (\<forall>u\<in>set (users db). clerkId u \<noteq> k)"
proof -
  have "getUserById db k = Inl (ConvexError ''User not found'') \<longleftrightarrow>
        unique (filter (\<lambda>u. clerkId u = k) (users db)) = Inr None"
    by (auto simp: getUserById_def split: sum.splits option.splits dest: unique_error)
  also have "\<dots> \<longleftrightarrow> filter (\<lambda>u. clerkId u = k) (users db) = []"
    by (rule unique_None_iff)
  also have "\<dots> \<longleftrightarrow> (\<forall>u\<in>set (users db). clerkId u \<noteq> k)"
    by (auto simp: filter_empty_conv)
  finally show ?thesis .
qed

lemma createUser_absent:
  "(\<forall>u\<in>set (users db). clerkId u \<noteq> cid) \<Longrightarrow>
   createUser db cid em img nm = Inr (insert_user db cid em img nm)"
  by (simp add: createUser_def)

lemma fetch_inserted:
  "(\<forall>u\<in>set (users db). clerkId u \<noteq> cid) \<Longrightarrow>
   getUserById (insert_user db cid em img nm) cid =
     Inr \<lparr>user.docId = nextId db, creationTime = clock db, clerkId = cid,
          email = em, imageUrl = img, name = nm\<rparr>"
  by (simp add: getUserById_def insert_user_def)

text \<open>
  C5. On a users table with no record whose \<open>clerkId\<close> is \<open>cid\<close>, \<open>createUser\<close>
  succeeds and \<open>getUserById\<close> on the store it leaves returns a record whose
  \<open>clerkId\<close>, \<open>email\<close>, \<open>imageUrl\<close> and \<open>name\<close> are the arguments of \<open>createUser\<close>.
  On every users table, \<open>getUserById\<close> fails with "User not found" exactly when
  no record has the given \<open>clerkId\<close>.
\<close>

theorem create_then_fetch:
  "((\<forall>u\<in>set (users db). clerkId u \<noteq> cid) \<longrightarrow>
      (\<exists>db' u. createUser db cid em img nm = Inr db' \<and> getUserById db' cid = Inr u \<and>
         clerkId u = cid \<and> email u = em \<and> user.imageUrl u = img \<and> name u = nm)) \<and>
   (getUserById db k = Inl (ConvexError ''User not found'') \<longleftrightarrow>
      (\<forall>u\<in>set (users db). clerkId u \<noteq> k))"
proof (intro conjI impI)
  assume a: "\<forall>u\<in>set (users db). clerkId u \<noteq> cid"
  show "\<exists>db' u. createUser db cid em img nm = Inr db' \<and> getUserById db' cid = Inr u \<and>
         clerkId u = cid \<and> email u = em \<and> user.imageUrl u = img \<and> name u = nm"
    using createUser_absent [OF a] fetch_inserted [OF a] by simp
next
  show "getUserById db k = Inl (ConvexError ''User not found'') \<longleftrightarrow>
      (\<forall>u\<in>set (users db). clerkId u \<noteq> k)"
    by (rule getUserById_NotFound_iff)
qed

theorem create_then_fetch_witness:
  "(\<exists>db' u. createUser (empty_store 0) ''user_1'' ''a@b.c'' ''a.png'' ''Ann'' = Inr db' \<and>
      getUserById db' ''user_1'' = Inr u \<and> clerkId u = ''user_1'' \<and> email u = ''a@b.c'' \<and>
      user.imageUrl u = ''a.png'' \<and> name u = ''Ann'') \<and>
   getUserById (empty_store 0) ''user_1'' = Inl (ConvexError ''User not found'')"
  using create_then_fetch [of "empty_store 0" "''user_1''" "''a@b.c''" "''a.png''" "''Ann''" "''user_1''"]
  by (simp add: empty_store_def)

section \<open>Mutations of the users table\<close>

lemma createUser_present:
  "clerk_unique db \<Longrightarrow> u \<in> set (users db) \<Longrightarrow> clerkId u = cid \<Longrightarrow>
   createUser db cid em img nm = Inl (ConvexError ''User already exists'')"
  by (simp add: createUser_def unique_present)

lemma createUser_exists_iff:
  assumes "clerk_unique db"
  shows "createUser db cid em img nm = Inl (ConvexError ''User already exists'') \<longleftrightarrow>
         (\<exists>u\<in>set (users db). clerkId u = cid)"
proof
  assume "createUser db cid em img nm = Inl (ConvexError ''User already exists'')"
  then show "\<exists>u\<in>set (users db). clerkId u = cid"
    using createUser_absent [of db cid em img nm] by auto
next
  assume "\<exists>u\<in>set (users db). clerkId u = cid"
  then show "createUser db cid em img nm = Inl (ConvexError ''User already exists'')"
    using assms createUser_present by blast
qed

lemma insert_user_clerk_unique:
  "clerk_unique db \<Longrightarrow> (\<forall>u\<in>set (users db). clerkId u \<noteq> cid) \<Longrightarrow>
   clerk_unique (insert_user db cid em img nm)"
  by (auto simp: clerk_unique_def insert_user_def)

lemma insert_user_ids_fresh:
  "ids_fresh db \<Longrightarrow> ids_fresh (insert_user db cid em img nm)"
  by (auto simp: ids_fresh_def insert_user_def list_all_iff less_Suc_eq)

lemma createUser_store_ok:
  "store_ok db \<Longrightarrow> createUser db cid em img nm = Inr db' \<Longrightarrow> store_ok db'"
  by (cases "\<forall>u\<in>set (users db). clerkId u \<noteq> cid")
     (auto simp: store_ok_def createUser_present createUser_absent
        insert_user_clerk_unique insert_user_ids_fresh)

lemma commit_Inl [simp]: "commit db (Inl e) = db"
  by (simp add: commit_def)

lemma commit_Inr [simp]: "commit db (Inr db') = db'"
  by (simp add: commit_def)

text \<open>
  C4. On a users table where no two records share a \<open>clerkId\<close>, \<open>createUser\<close> fails
  with "User already exists" if and only if a record with the given \<open>clerkId\<close> is
  present, and then the store is unchanged. When no such record is present,
  \<open>createUser\<close> appends a record with exactly the given fields (and the system
  fields of the store) and changes nothing else; a second \<open>createUser\<close> with the
  same \<open>clerkId\<close>, whatever its other arguments, fails with "User already exists"
  and leaves the store of the first call as it is.
\<close>

theorem createUser_already_exists:
  assumes "clerk_unique db"
  shows "(createUser db cid em img nm = Inl (ConvexError ''User already exists'') \<longleftrightarrow>
            (\<exists>u\<in>set (users db). clerkId u = cid)) \<and>
         ((\<exists>u\<in>set (users db). clerkId u = cid) \<longrightarrow>
            commit db (createUser db cid em img nm) = db) \<and>
         ((\<forall>u\<in>set (users db). clerkId u \<noteq> cid) \<longrightarrow>
            createUser db cid em img nm =
              Inr (db\<lparr>users := users db @
                         [\<lparr>user.docId = nextId db, creationTime = clock db, clerkId = cid,
                           email = em, imageUrl = img, name = nm\<rparr>],
                      nextId := Suc (nextId db)\<rparr>) \<and>
            createUser (commit db (createUser db cid em img nm)) cid em2 img2 nm2 =
              Inl (ConvexError ''User already exists'') \<and>
            commit (commit db (createUser db cid em img nm))
              (createUser (commit db (createUser db cid em img nm)) cid em2 img2 nm2) =
              commit db (createUser db cid em img nm))"
proof (intro conjI impI)
  show "createUser db cid em img nm = Inl (ConvexError ''User already exists'') \<longleftrightarrow>
            (\<exists>u\<in>set (users db). clerkId u = cid)"
    using assms by (rule createUser_exists_iff)
next
  assume "\<exists>u\<in>set (users db). clerkId u = cid"
  then show "commit db (createUser db cid em img nm) = db"
    using assms createUser_present by fastforce
next
  assume a: "\<forall>u\<in>set (users db). clerkId u \<noteq> cid"
  let ?db' = "insert_user db cid em img nm"
  have 1: "createUser db cid em img nm = Inr ?db'"
    using a by (rule createUser_absent)
  have 2: "clerk_unique ?db'"
    using assms a by (rule insert_user_clerk_unique)
  have 3: "\<exists>u\<in>set (users ?db'). clerkId u = cid"
    by (simp add: insert_user_def)
  have 4: "createUser ?db' cid em2 img2 nm2 = Inl (ConvexError ''User already exists'')"
    using createUser_exists_iff [OF 2] 3 by blast
  show "createUser db cid em img nm =
              Inr (db\<lparr>users := users db @
                         [\<lparr>user.docId = nextId db, creationTime = clock db, clerkId = cid,
                           email = em, imageUrl = img, name = nm\<rparr>],
                      nextId := Suc (nextId db)\<rparr>)"
    using 1 by (simp add: insert_user_def)
  show "createUser (commit db (createUser db cid em img nm)) cid em2 img2 nm2 =
              Inl (ConvexError ''User already exists'')"
    using 1 4 by simp
  then show "commit (commit db (createUser db cid em img nm))
              (createUser (commit db (createUser db cid em img nm)) cid em2 img2 nm2) =
              commit db (createUser db cid em img nm)"
    by simp
qed

theorem createUser_already_exists_witness:
  "clerk_unique (empty_store 0) \<and>
   createUser (empty_store 0) ''user_1'' ''a@b.c'' ''a.png'' ''Ann'' =
     Inr \<lparr>users = [ann], podcasts = [], nextId = 1, clock = 0\<rparr> \<and>
   createUser \<lparr>users = [ann], podcasts = [], nextId = 1, clock = 0\<rparr>
       ''user_1'' ''x@y.z'' ''x.png'' ''Xen'' = Inl (ConvexError ''User already exists'') \<and>
   commit \<lparr>users = [ann], podcasts = [], nextId = 1, clock = 0\<rparr>
     (createUser \<lparr>users = [ann], podcasts = [], nextId = 1, clock = 0\<rparr>
       ''user_1'' ''x@y.z'' ''x.png'' ''Xen'') = \<lparr>users = [ann], podcasts = [], nextId = 1, clock = 0\<rparr>"
proof -
  have h: "clerk_unique (empty_store 0)"
    by (simp add: clerk_unique_def empty_store_def)
  show ?thesis
    using h createUser_already_exists [OF h, of "''user_1''" "''a@b.c''" "''a.png''" "''Ann''"
        "''x@y.z''" "''x.png''" "''Xen''"]
    by (auto simp: empty_store_def ann_def)
qed

lemma filter_remove1_distinct:
  "distinct (map f xs) \<Longrightarrow> u \<in> set xs \<Longrightarrow> filter (\<lambda>d. f d \<noteq> f u) xs = remove1 u xs"
proof (induction xs)
  case Nil
  then show ?case by simp
next
  case (Cons x xs)
  show ?case
  proof (cases "x = u")
    case True
    with Cons.prems have "f u \<notin> f ` set xs" by simp
    then have "\<forall>y\<in>set xs. f y \<noteq> f u" by (metis imageI)
    then have "filter (\<lambda>d. f d \<noteq> f u) xs = xs" by simp
    with True show ?thesis by simp
  next
    case False
    with Cons.prems have "u \<in> set xs" and "f x \<noteq> f u" by auto
    with Cons False show ?thesis by simp
  qed
qed

lemma deleteUser_absent:
  "(\<forall>u\<in>set (users db). clerkId u \<noteq> cid) \<Longrightarrow>
   deleteUser db cid = Inl (ConvexError ''User not found'')"
  by (simp add: deleteUser_def)

lemma deleteUser_present:
  assumes "store_ok db" and "u \<in> set (users db)" and "clerkId u = cid"
  shows "deleteUser db cid = Inr (db\<lparr>users := remove1 u (users db)\<rparr>)"
proof -
  have d: "distinct (map user.docId (users db))"
    using assms(1) by (simp add: store_ok_def ids_fresh_def)
  have "unique (filter (\<lambda>x. clerkId x = cid) (users db)) = Inr (Some u)"
    using assms by (simp add: store_ok_def unique_present)
  moreover have "delete user.docId (user.docId u) (users db) = Inr (remove1 u (users db))"
    using assms(2) filter_remove1_distinct [OF d assms(2)] by (simp add: delete_def)
  ultimately show ?thesis by (simp add: deleteUser_def)
qed

lemma deleteUser_podcasts:
  "podcasts (commit db (deleteUser db cid)) = podcasts db"
  by (auto simp: deleteUser_def commit_def split: sum.splits option.splits)


lemma patch_ids: "patch ident i f ds = Inr ds' \<Longrightarrow> (\<And>d. ident (f d) = ident d) \<Longrightarrow>
  map ident ds' = map ident ds"
  by (auto simp: patch_def split: if_splits)

lemma patch_each_eq:
  "podcast.docId ` set ps \<subseteq> podcast.docId ` set tbl \<Longrightarrow>
   patch_each img ps tbl =
     Inr (map (\<lambda>d. if podcast.docId d \<in> podcast.docId ` set ps
                     then d\<lparr>authorImageUrl := img\<rparr> else d) tbl)"
proof (induction ps arbitrary: tbl)
  case Nil
  then show ?case by simp
next
  case (Cons p ps)
  let ?f = "\<lambda>d. if podcast.docId d = podcast.docId p then d\<lparr>authorImageUrl := img\<rparr> else d"
  have p: "patch podcast.docId (podcast.docId p) (\<lambda>d. d\<lparr>authorImageUrl := img\<rparr>) tbl
             = Inr (map ?f tbl)"
    using Cons.prems by (simp add: patch_def)
  have "map podcast.docId (map ?f tbl) = map podcast.docId tbl"
    by (induction tbl) simp_all
  then have ids: "podcast.docId ` set (map ?f tbl) = podcast.docId ` set tbl"
    by (metis set_map)
  have "podcast.docId ` set ps \<subseteq> podcast.docId ` set (map ?f tbl)"
    using Cons.prems unfolding ids by simp
  then have "patch_each img ps (map ?f tbl) =
     Inr (map (\<lambda>d. if podcast.docId d \<in> podcast.docId ` set ps
                     then d\<lparr>authorImageUrl := img\<rparr> else d) (map ?f tbl))"
    by (rule Cons.IH)
  with p show ?case by (auto simp: o_def intro!: map_cong)
qed

lemma cascade_eq:
  assumes "distinct (map podcast.docId tbl)"
  shows "patch_each img (filter (\<lambda>p. authorId p = cid) tbl) tbl =
         Inr (map (\<lambda>p. if authorId p = cid then p\<lparr>authorImageUrl := img\<rparr> else p) tbl)"
proof -
  define ps where "ps = filter (\<lambda>p. authorId p = cid) tbl"
  define S where "S = podcast.docId ` set ps"
  have inj: "inj_on podcast.docId (set tbl)"
    using assms by (simp add: distinct_map)
  have m: "podcast.docId d \<in> S \<longleftrightarrow> authorId d = cid" if d: "d \<in> set tbl" for d
  proof
    assume "podcast.docId d \<in> S"
    then obtain q where q: "q \<in> set tbl" "authorId q = cid" "podcast.docId d = podcast.docId q"
      by (auto simp: S_def ps_def)
    with inj d have "d = q" by (meson inj_onD)
    with q show "authorId d = cid" by simp
  next
    assume "authorId d = cid"
    with d show "podcast.docId d \<in> S" by (simp add: S_def ps_def)
  qed
  have "podcast.docId ` set ps \<subseteq> podcast.docId ` set tbl"
    by (auto simp: ps_def)
  then have "patch_each img ps tbl =
     Inr (map (\<lambda>d. if podcast.docId d \<in> podcast.docId ` set ps
                     then d\<lparr>authorImageUrl := img\<rparr> else d) tbl)"
    by (rule patch_each_eq)
  then have "patch_each img ps tbl =
     Inr (map (\<lambda>d. if podcast.docId d \<in> S then d\<lparr>authorImageUrl := img\<rparr> else d) tbl)"
    by (simp add: S_def)
  also have "map (\<lambda>d. if podcast.docId d \<in> S then d\<lparr>authorImageUrl := img\<rparr> else d) tbl =
             map (\<lambda>p. if authorId p = cid then p\<lparr>authorImageUrl := img\<rparr> else p) tbl"
    by (rule map_cong) (simp_all add: m)
  finally show ?thesis by (simp add: ps_def)
qed

lemma patch_user_eq:
  assumes "store_ok db" and "u \<in> set (users db)" and "clerkId u = cid"
  shows "patch user.docId (user.docId u) f (users db) =
         Inr (map (\<lambda>d. if clerkId d = cid then f d else d) (users db))"
proof -
  have inj: "inj_on user.docId (set (users db))" "inj_on clerkId (set (users db))"
    using assms(1) by (simp_all add: store_ok_def ids_fresh_def clerk_unique_def distinct_map)
  have "\<And>d. d \<in> set (users db) \<Longrightarrow> user.docId d = user.docId u \<longleftrightarrow> clerkId d = cid"
    using inj assms(2,3) by (metis inj_onD)
  then have "map (\<lambda>d. if user.docId d = user.docId u then f d else d) (users db) =
             map (\<lambda>d. if clerkId d = cid then f d else d) (users db)"
    by (intro map_cong) simp_all
  with assms(2) show ?thesis by (simp add: patch_def)
qed

lemma updateUser_absent:
  "(\<forall>u\<in>set (users db). clerkId u \<noteq> cid) \<Longrightarrow>
   updateUser db cid img em = Inl (ConvexError ''User not found'')"
  by (simp add: updateUser_def)

lemma updateUser_present:
  assumes "store_ok db" and "u \<in> set (users db)" and "clerkId u = cid"
  shows "updateUser db cid img em =
     Inr (db\<lparr>users := map (\<lambda>d. if clerkId d = cid then d\<lparr>user.imageUrl := img, email := em\<rparr> else d) (users db),
             podcasts := map (\<lambda>p. if authorId p = cid then p\<lparr>authorImageUrl := img\<rparr> else p) (podcasts db)\<rparr>)"
proof -
  have "unique (filter (\<lambda>x. clerkId x = cid) (users db)) = Inr (Some u)"
    using assms by (simp add: store_ok_def unique_present)
  moreover have "distinct (map podcast.docId (podcasts db))"
    using assms(1) by (simp add: store_ok_def ids_fresh_def)
  ultimately show ?thesis
    using patch_user_eq [OF assms] by (simp add: updateUser_def cascade_eq)
qed


lemma empty_store_ok: "store_ok (empty_store t)"
  by (simp add: store_ok_def clerk_unique_def ids_fresh_def empty_store_def)

lemma demo_ok: "store_ok demo"
  by (simp add: store_ok_def clerk_unique_def ids_fresh_def demo_def profile_def episode_def)

lemma updateUser_store_ok:
  assumes "store_ok db" and "updateUser db cid img em = Inr db'"
  shows "store_ok db'"
proof (cases "\<forall>u\<in>set (users db). clerkId u \<noteq> cid")
  case True
  with assms(2) show ?thesis by (simp add: updateUser_absent)
next
  case False
  then obtain u where "u \<in> set (users db)" "clerkId u = cid" by blast
  from updateUser_present [OF assms(1) this, of img em] assms(2)
  have db': "db' = db\<lparr>users := map (\<lambda>d. if clerkId d = cid then d\<lparr>user.imageUrl := img, email := em\<rparr> else d) (users db),
             podcasts := map (\<lambda>p. if authorId p = cid then p\<lparr>authorImageUrl := img\<rparr> else p) (podcasts db)\<rparr>"
    by simp
  have 1: "map clerkId (users db') = map clerkId (users db)"
    unfolding db' by (induction "users db") simp_all
  have 2: "map user.docId (users db') = map user.docId (users db)"
    unfolding db' by simp
  have 3: "map podcast.docId (podcasts db') = map podcast.docId (podcasts db)"
    unfolding db' by simp
  have 4: "nextId db' = nextId db" unfolding db' by simp
  have "list_all (\<lambda>u. user.docId u < nextId db) (users db') \<longleftrightarrow>
        (\<forall>i\<in>set (map user.docId (users db')). i < nextId db)"
    by (simp add: list_all_iff)
  with assms(1) show ?thesis
    unfolding store_ok_def clerk_unique_def ids_fresh_def 1 2 3 4
    by (simp add: list_all_iff)
qed

lemma distinct_map_remove1:
  "distinct (map f xs) \<Longrightarrow> distinct (map f (remove1 u xs))"
  unfolding distinct_map by (meson distinct_remove1 inj_on_subset set_remove1_subset)

lemma deleteUser_store_ok:
  assumes "store_ok db" and "deleteUser db cid = Inr db'"
  shows "store_ok db'"
proof (cases "\<forall>u\<in>set (users db). clerkId u \<noteq> cid")
  case True
  with assms(2) show ?thesis by (simp add: deleteUser_absent)
next
  case False
  then obtain u where "u \<in> set (users db)" "clerkId u = cid" by blast
  from deleteUser_present [OF assms(1) this] assms(2)
  have db': "db' = db\<lparr>users := remove1 u (users db)\<rparr>" by simp
  from assms(1) show ?thesis
    unfolding db' store_ok_def clerk_unique_def ids_fresh_def
    by (auto simp: list_all_iff distinct_map_remove1 dest: notin_set_remove1)
qed


text \<open>
  C1. On a well-formed store, \<open>updateUser\<close> fails with "User not found" when no
  user record has the given \<open>clerkId\<close>, and the store is unchanged; otherwise it
  succeeds, the user record with that \<open>clerkId\<close> has its \<open>imageUrl\<close> and \<open>email\<close>
  overwritten with the arguments, every podcast record whose \<open>authorId\<close> is that
  \<open>clerkId\<close> has its \<open>authorImageUrl\<close> overwritten with the new image, and every
  other record and field is as before.
\<close>

theorem updateUser_cascade:
  assumes "store_ok db"
  shows "((\<forall>u\<in>set (users db). clerkId u \<noteq> cid) \<longrightarrow>
            updateUser db cid img em = Inl (ConvexError ''User not found'') \<and>
            commit db (updateUser db cid img em) = db) \<and>
         ((\<exists>u\<in>set (users db). clerkId u = cid) \<longrightarrow>
            updateUser db cid img em =
              Inr (db\<lparr>users := map (\<lambda>d. if clerkId d = cid
                                       then d\<lparr>user.imageUrl := img, email := em\<rparr> else d) (users db),
                      podcasts := map (\<lambda>p. if authorId p = cid
                                       then p\<lparr>authorImageUrl := img\<rparr> else p) (podcasts db)\<rparr>))"
proof (intro conjI impI)
  assume "\<forall>u\<in>set (users db). clerkId u \<noteq> cid"
  then show "updateUser db cid img em = Inl (ConvexError ''User not found'')"
    by (rule updateUser_absent)
  then show "commit db (updateUser db cid img em) = db" by simp
next
  assume "\<exists>u\<in>set (users db). clerkId u = cid"
  then obtain u where "u \<in> set (users db)" "clerkId u = cid" by blast
  with assms show "updateUser db cid img em =
              Inr (db\<lparr>users := map (\<lambda>d. if clerkId d = cid
                                       then d\<lparr>user.imageUrl := img, email := em\<rparr> else d) (users db),
                      podcasts := map (\<lambda>p. if authorId p = cid
                                       then p\<lparr>authorImageUrl := img\<rparr> else p) (podcasts db)\<rparr>)"
    by (rule updateUser_present)
qed

theorem updateUser_cascade_witness:
  "store_ok demo \<and>
   updateUser demo ''Z'' ''new.png'' ''a@new.org'' = Inl (ConvexError ''User not found'') \<and>
   updateUser demo ''A'' ''new.png'' ''a@new.org'' =
     Inr \<lparr>users = [profile 0 ''B'', (profile 1 ''A'')\<lparr>user.imageUrl := ''new.png'', email := ''a@new.org''\<rparr>],
          podcasts = [(episode 2 ''p1'' ''A'' 5)\<lparr>authorImageUrl := ''new.png''\<rparr>,
                      episode 3 ''p2'' ''B'' 7,
                      (episode 4 ''p3'' ''A'' 9)\<lparr>authorImageUrl := ''new.png''\<rparr>,
                      (episode 5 ''p4'' ''A'' 1)\<lparr>authorImageUrl := ''new.png''\<rparr>],
          nextId = 6, clock = 0\<rparr>"
  using demo_ok updateUser_cascade [OF demo_ok, of "''Z''" "''new.png''" "''a@new.org''"]
    updateUser_cascade [OF demo_ok, of "''A''" "''new.png''" "''a@new.org''"]
  by (simp add: demo_def profile_def episode_def)


text \<open>
  C6. On a well-formed store, \<open>deleteUser\<close> fails with "User not found" when no
  user record has the given \<open>clerkId\<close>, and the store is unchanged; when a record
  has it, the store the call leaves is the old one with exactly that record
  removed from the users table (one record fewer, none with that \<open>clerkId\<close>
  left). In both cases the podcasts table is unchanged.
\<close>

theorem deleteUser_frame:
  assumes "store_ok db"
  shows "((\<forall>u\<in>set (users db). clerkId u \<noteq> cid) \<longrightarrow>
            deleteUser db cid = Inl (ConvexError ''User not found'') \<and>
            commit db (deleteUser db cid) = db) \<and>
         (\<forall>u\<in>set (users db). clerkId u = cid \<longrightarrow>
            deleteUser db cid = Inr (db\<lparr>users := remove1 u (users db)\<rparr>) \<and>
            length (remove1 u (users db)) + 1 = length (users db) \<and>
            (\<forall>x\<in>set (remove1 u (users db)). clerkId x \<noteq> cid)) \<and>
         podcasts (commit db (deleteUser db cid)) = podcasts db"
proof (intro conjI impI ballI)
  assume a: "\<forall>u\<in>set (users db). clerkId u \<noteq> cid"
  then show "deleteUser db cid = Inl (ConvexError ''User not found'')"
    by (rule deleteUser_absent)
  then show "commit db (deleteUser db cid) = db" by simp
next
  fix u assume u: "u \<in> set (users db)" "clerkId u = cid"
  show "deleteUser db cid = Inr (db\<lparr>users := remove1 u (users db)\<rparr>)"
    using assms u by (rule deleteUser_present)
  show "length (remove1 u (users db)) + 1 = length (users db)"
    using u(1) by (simp add: length_remove1) (metis Suc_pred length_pos_if_in_set)
  fix x assume x: "x \<in> set (remove1 u (users db))"
  have dc: "distinct (map clerkId (users db))"
    using assms by (simp add: store_ok_def clerk_unique_def)
  then have "distinct (users db)" by (rule distinct_map [THEN iffD1, THEN conjunct1])
  with x have "x \<in> set (users db)" "x \<noteq> u" by auto
  with dc u show "clerkId x \<noteq> cid"
    by (metis distinct_map inj_onD)
next
  show "podcasts (commit db (deleteUser db cid)) = podcasts db"
    by (rule deleteUser_podcasts)
qed

theorem deleteUser_frame_witness:
  "store_ok demo \<and>
   deleteUser demo ''Z'' = Inl (ConvexError ''User not found'') \<and>
   commit demo (deleteUser demo ''Z'') = demo \<and>
   deleteUser demo ''A'' = Inr (demo\<lparr>users := [profile 0 ''B'']\<rparr>) \<and>
   podcasts (commit demo (deleteUser demo ''A'')) =
     [episode 2 ''p1'' ''A'' 5, episode 3 ''p2'' ''B'' 7,
      episode 4 ''p3'' ''A'' 9, episode 5 ''p4'' ''A'' 1]"
  using demo_ok deleteUser_frame [OF demo_ok, of "''Z''"] deleteUser_frame [OF demo_ok, of "''A''"]
  by (simp add: demo_def profile_def episode_def)

section \<open>The ranking\<close>

lemma mset_insort_by: "mset (insort_by cmp x xs) = add_mset x (mset xs)"
  by (induction xs) simp_all

lemma mset_sort_by: "mset (sort_by cmp xs) = mset xs"
  unfolding sort_by_def by (induction xs) (simp_all add: mset_insort_by)

lemma set_insort_by: "set (insort_by cmp x xs) = insert x (set xs)"
  by (metis mset_insort_by set_mset_add_mset_insert set_mset_mset)

lemma set_sort_by: "set (sort_by cmp xs) = set xs"
  by (metis mset_sort_by set_mset_mset)

lemma length_sort_by: "length (sort_by cmp xs) = length xs"
  by (metis mset_sort_by size_mset)

text \<open>A comparator that subtracts keys orders by key, largest first.\<close>

lemma sorted_insort_by:
  fixes key :: "'a \<Rightarrow> int"
  assumes "\<And>a b. cmp a b = key b - key a"
    and "sorted_wrt (\<lambda>a b. key b \<le> key a) xs"
  shows "sorted_wrt (\<lambda>a b. key b \<le> key a) (insort_by cmp x xs)"
  using assms(2)
proof (induction xs)
  case Nil
  then show ?case by simp
next
  case (Cons y ys)
  show ?case
  proof (cases "cmp x y \<le> 0")
    case True
    then have "key y \<le> key x" by (simp add: assms(1))
    with Cons.prems True show ?thesis by force
  next
    case False
    then have "key x \<le> key y" by (simp add: assms(1))
    with Cons False show ?thesis by (auto simp: set_insort_by)
  qed
qed

lemma sorted_sort_by:
  fixes key :: "'a \<Rightarrow> int"
  assumes "\<And>a b. cmp a b = key b - key a"
  shows "sorted_wrt (\<lambda>a b. key b \<le> key a) (sort_by cmp xs)"
  unfolding sort_by_def
  by (induction xs) (simp_all add: sorted_insort_by [OF assms])

text \<open>The sort is stable: records with the same key keep their order.\<close>

lemma stable_insort_by:
  fixes key :: "'a \<Rightarrow> int"
  assumes "\<And>a b. cmp a b = key b - key a"
    and "sorted_wrt (\<lambda>a b. key b \<le> key a) xs"
  shows "filter (\<lambda>y. key y = k) (insort_by cmp x xs) =
         (if key x = k then x # filter (\<lambda>y. key y = k) xs else filter (\<lambda>y. key y = k) xs)"
  using assms(2)
proof (induction xs)
  case Nil
  then show ?case by simp
next
  case (Cons y ys)
  show ?case
  proof (cases "cmp x y \<le> 0")
    case True
    then show ?thesis by simp
  next
    case False
    then have lt: "key x < key y" by (simp add: assms(1))
    show ?thesis
    proof (cases "key x = k")
      case True
      with lt have "key y \<noteq> k" by simp
      with Cons False True show ?thesis by simp
    next
      case no: False
      with Cons False show ?thesis by simp
    qed
  qed
qed

lemma stable_sort_by:
  fixes key :: "'a \<Rightarrow> int"
  assumes "\<And>a b. cmp a b = key b - key a"
  shows "filter (\<lambda>y. key y = k) (sort_by cmp xs) = filter (\<lambda>y. key y = k) xs"
  unfolding sort_by_def
proof (induction xs)
  case Nil
  then show ?case by simp
next
  case (Cons x xs)
  have "sorted_wrt (\<lambda>a b. key b \<le> key a) (foldr (insort_by cmp) xs [])"
    using sorted_sort_by [OF assms, where xs = xs] by (simp add: sort_by_def)
  from stable_insort_by [OF assms this, of k x] Cons show ?case by simp
qed

lemma userData_user [simp]: "user.truncate (userData db u) = u"
  by (simp add: userData_def Let_def user.defs top_podcaster.defs)

lemma userData_clerkId [simp]: "clerkId (userData db u) = clerkId u"
  by (simp add: userData_def Let_def user.defs top_podcaster.defs)

lemma userData_totalPodcasts [simp]:
  "totalPodcasts (userData db u) = length (filter (\<lambda>p. authorId p = clerkId u) (podcasts db))"
  by (simp add: userData_def Let_def user.defs top_podcaster.defs)

lemma userData_podcast [simp]:
  "podcast (userData db u) =
     map (\<lambda>p. \<lparr>podcastTitle = podcast.podcastTitle p, podcastId = podcast.docId p\<rparr>)
       (sort_by (\<lambda>a b. views b - views a) (filter (\<lambda>p. authorId p = clerkId u) (podcasts db)))"
  by (simp add: userData_def Let_def user.defs top_podcaster.defs)

lemma set_ranking: "set (getTopUserByPodcastCount db) = userData db ` set (users db)"
  by (simp add: getTopUserByPodcastCount_def set_sort_by)

lemma mset_ranking: "mset (getTopUserByPodcastCount db) = mset (map (userData db) (users db))"
  by (simp add: getTopUserByPodcastCount_def mset_sort_by)

lemma ranking_users: "mset (map user.truncate (getTopUserByPodcastCount db)) = mset (users db)"
proof -
  have "mset (map user.truncate (getTopUserByPodcastCount db)) =
        image_mset user.truncate (mset (getTopUserByPodcastCount db))"
    by simp
  also have "\<dots> = image_mset user.truncate (image_mset (userData db) (mset (users db)))"
    by (simp add: mset_ranking)
  also have "\<dots> = image_mset (\<lambda>u. user.truncate (userData db u)) (mset (users db))"
    by (simp add: multiset.map_comp o_def)
  also have "\<dots> = mset (users db)"
    by simp
  finally show ?thesis .
qed

lemma sorted_ranking:
  "sorted_wrt (\<lambda>a b. totalPodcasts b \<le> totalPodcasts a) (getTopUserByPodcastCount db)"
  using sorted_sort_by [of "\<lambda>a b. int (totalPodcasts b) - int (totalPodcasts a)"
      "\<lambda>e. int (totalPodcasts e)" "map (userData db) (users db)"]
  by (simp add: getTopUserByPodcastCount_def)

lemma userData_fields:
  "user.docId (userData db u) = user.docId u"
  "user.creationTime (userData db u) = user.creationTime u"
  "email (userData db u) = email u"
  "user.imageUrl (userData db u) = user.imageUrl u"
  "name (userData db u) = name u"
  by (simp_all add: userData_def Let_def user.defs top_podcaster.defs)

lemma ranking_demo:
  "getTopUserByPodcastCount demo =
     [userData demo (profile 1 ''A''), userData demo (profile 0 ''B'')]"
  by (simp add: getTopUserByPodcastCount_def demo_def sort_by_def episode_def profile_def)

text \<open>
  C2. The ranking has one entry per user record (its entries, cut back to the
  user fields, are the users table up to order). In every entry, \<open>totalPodcasts\<close>
  is the number of podcast records whose \<open>authorId\<close> is the entry's \<open>clerkId\<close>,
  and \<open>podcast\<close> is the projection to title and id of a list that holds exactly
  those records and is in descending order of \<open>views\<close>. The entries are in
  descending order of \<open>totalPodcasts\<close>.
\<close>

theorem ranking:
  "mset (map user.truncate (getTopUserByPodcastCount db)) = mset (users db) \<and>
   sorted_wrt (\<lambda>a b. totalPodcasts b \<le> totalPodcasts a) (getTopUserByPodcastCount db) \<and>
   (\<forall>e\<in>set (getTopUserByPodcastCount db).
      totalPodcasts e = length (filter (\<lambda>p. authorId p = clerkId e) (podcasts db)) \<and>
      (\<exists>ps. mset ps = mset (filter (\<lambda>p. authorId p = clerkId e) (podcasts db)) \<and>
            sorted_wrt (\<lambda>a b. views b \<le> views a) ps \<and>
            podcast e =
              map (\<lambda>p. \<lparr>podcastTitle = podcast.podcastTitle p, podcastId = podcast.docId p\<rparr>) ps))"
proof (intro conjI ballI)
  show "mset (map user.truncate (getTopUserByPodcastCount db)) = mset (users db)"
    by (rule ranking_users)
  show "sorted_wrt (\<lambda>a b. totalPodcasts b \<le> totalPodcasts a) (getTopUserByPodcastCount db)"
    by (rule sorted_ranking)
next
  fix e assume "e \<in> set (getTopUserByPodcastCount db)"
  then obtain u where e: "e = userData db u" by (auto simp: set_ranking)
  show "totalPodcasts e = length (filter (\<lambda>p. authorId p = clerkId e) (podcasts db))"
    by (simp add: e)
  let ?ps = "sort_by (\<lambda>a b. views b - views a) (filter (\<lambda>p. authorId p = clerkId u) (podcasts db))"
  have "mset ?ps = mset (filter (\<lambda>p. authorId p = clerkId e) (podcasts db))"
    by (simp add: e mset_sort_by)
  moreover have "sorted_wrt (\<lambda>a b. views b \<le> views a) ?ps"
    by (rule sorted_sort_by) simp
  moreover have "podcast e =
      map (\<lambda>p. \<lparr>podcastTitle = podcast.podcastTitle p, podcastId = podcast.docId p\<rparr>) ?ps"
    by (simp add: e)
  ultimately show "\<exists>ps. mset ps = mset (filter (\<lambda>p. authorId p = clerkId e) (podcasts db)) \<and>
            sorted_wrt (\<lambda>a b. views b \<le> views a) ps \<and>
            podcast e =
              map (\<lambda>p. \<lparr>podcastTitle = podcast.podcastTitle p, podcastId = podcast.docId p\<rparr>) ps"
    by blast
qed

theorem ranking_witness:
  "map clerkId (getTopUserByPodcastCount demo) = [''A'', ''B''] \<and>
   map totalPodcasts (getTopUserByPodcastCount demo) = [3, 1] \<and>
   map podcast (getTopUserByPodcastCount demo) =
     [[\<lparr>podcastTitle = ''p3'', podcastId = 4\<rparr>, \<lparr>podcastTitle = ''p1'', podcastId = 2\<rparr>,
       \<lparr>podcastTitle = ''p4'', podcastId = 5\<rparr>],
      [\<lparr>podcastTitle = ''p2'', podcastId = 3\<rparr>]] \<and>
   mset (map user.truncate (getTopUserByPodcastCount demo)) = mset (users demo) \<and>
   sorted_wrt (\<lambda>a b. totalPodcasts b \<le> totalPodcasts a) (getTopUserByPodcastCount demo)"
proof -
  have "map totalPodcasts (getTopUserByPodcastCount demo) = [3, 1]"
    unfolding ranking_demo by (simp add: demo_def episode_def profile_def)
  moreover have "map podcast (getTopUserByPodcastCount demo) =
     [[\<lparr>podcastTitle = ''p3'', podcastId = 4\<rparr>, \<lparr>podcastTitle = ''p1'', podcastId = 2\<rparr>,
       \<lparr>podcastTitle = ''p4'', podcastId = 5\<rparr>],
      [\<lparr>podcastTitle = ''p2'', podcastId = 3\<rparr>]]"
    unfolding ranking_demo by (simp add: demo_def episode_def profile_def sort_by_def)
  moreover have "map clerkId (getTopUserByPodcastCount demo) = [''A'', ''B'']"
    unfolding ranking_demo by (simp add: profile_def)
  ultimately show ?thesis
    using ranking [of demo] by simp
qed

text \<open>
  C10. Every entry of the ranking carries all fields of a user record of the
  table unchanged (the store's id and creation time, \<open>clerkId\<close>, \<open>email\<close>,
  \<open>imageUrl\<close> and \<open>name\<close>), and every user record of the table is carried by an
  entry.
\<close>

theorem ranking_exposes_profile:
  "(\<forall>e\<in>set (getTopUserByPodcastCount db). \<exists>u\<in>set (users db).
      user.truncate e = u \<and> user.docId e = user.docId u \<and>
      user.creationTime e = user.creationTime u \<and> clerkId e = clerkId u \<and>
      email e = email u \<and> user.imageUrl e = user.imageUrl u \<and> name e = name u) \<and>
   (\<forall>u\<in>set (users db). \<exists>e\<in>set (getTopUserByPodcastCount db).
      user.truncate e = u \<and> user.docId e = user.docId u \<and>
      user.creationTime e = user.creationTime u \<and> clerkId e = clerkId u \<and>
      email e = email u \<and> user.imageUrl e = user.imageUrl u \<and> name e = name u)"
  by (simp add: set_ranking userData_fields)

theorem ranking_exposes_profile_witness:
  "map email (getTopUserByPodcastCount demo) = [''A@old.org'', ''B@old.org''] \<and>
   map user.docId (getTopUserByPodcastCount demo) = [1, 0] \<and>
   map user.truncate (getTopUserByPodcastCount demo) = [profile 1 ''A'', profile 0 ''B''] \<and>
   (\<exists>e\<in>set (getTopUserByPodcastCount demo). user.truncate e = profile 0 ''B'' \<and>
      email e = ''B@old.org'')"
proof -
  have "profile 0 ''B'' \<in> set (users demo)"
    by (simp add: demo_def)
  with ranking_exposes_profile [of demo]
  have "\<exists>e\<in>set (getTopUserByPodcastCount demo). user.truncate e = profile 0 ''B'' \<and>
      email e = email (profile 0 ''B'')"
    by blast
  then show ?thesis
    unfolding ranking_demo by (simp add: userData_fields profile_def)
qed

section \<open>The playback selection and its accessor\<close>

lemma effect_pathname [simp]: "pathname (effect s) = pathname s"
  by (simp add: effect_def)

lemma effect_deps [simp]: "deps (effect s) = Some (pathname s)"
  by (simp add: effect_def)

lemma effect_idle: "deps s = Some (pathname s) \<Longrightarrow> effect s = s"
  by (simp add: effect_def)

lemma step_deps [simp]: "deps (step s e) = Some (pathname (step s e))"
  by (cases e) simp_all


lemma run_Cons [simp]: "run s (e # evs) = run (step s e) evs"
  by (simp add: run_def)

lemma run_Nil [simp]: "run s [] = s"
  by (simp add: run_def)

lemma mount_deps [simp]: "deps (mount p) = Some (pathname (mount p))"
  by (simp add: mount_def)

lemma mount_audio [simp]: "provider.audio (mount p) = None"
  by (simp add: mount_def effect_def)

lemma mount_pathname [simp]: "pathname (mount p) = p"
  by (simp add: mount_def)


lemma step_SetAudio:
  "deps s = Some (pathname s) \<Longrightarrow>
   step s (SetAudio a) = s\<lparr>provider.audio := apply_action a (provider.audio s)\<rparr>"
  by (simp add: effect_def)




lemma step_Route_pathname [simp]: "pathname (step s (Route p)) = p"
  by simp

lemma step_SetAudio_pathname [simp]: "pathname (step s (SetAudio a)) = pathname s"
  by simp

declare step.simps [simp del]





text \<open>
  C7. \<open>useAudio\<close> in a component that no \<^verbatim>\<open>AudioProvider\<close> encloses throws an
  error and returns no value. Inside a provider it does not throw: it returns
  the context value of the nearest provider, whose \<open>audio\<close> is the provider's
  current selection and whose \<open>setAudio\<close> is the provider's setter.
\<close>

theorem useAudio_guard:
  "useAudio [] = Inl (Error useAudio_message) \<and>
   useAudio (s # outer) = Inr (context_value s) \<and>
   audio_context_type.audio (context_value s) = provider.audio s \<and>
   setAudio (context_value s) act = step s (SetAudio act)"
  by (simp add: useAudio_def context_value_def)

theorem useAudio_guard_witness:
  "useAudio [] = Inl (Error useAudio_message) \<and>
   useAudio [mount ''/''] = Inr (context_value (mount ''/'')) \<and>
   audio_context_type.audio (context_value (mount ''/'')) = None \<and>
   provider.audio (setAudio (context_value (mount ''/'')) (Value (Some (track ''one'')))) =
     Some (track ''one'')"
  using useAudio_guard [of "mount ''/''" "[]" "Value (Some (track ''one''))"]
  by (simp add: step_SetAudio)

section \<open>Minutes and seconds\<close>

declare ilog2.simps [simp del]

lemma ilog2_small: "n < 2 \<Longrightarrow> ilog2 n = 0"
  by (subst ilog2.simps) simp

lemma ilog2_large: "2 \<le> n \<Longrightarrow> ilog2 n = Suc (ilog2 (n div 2))"
  by (subst ilog2.simps) simp

lemma ilog2_bounds: "0 < n \<Longrightarrow> 2 ^ ilog2 n \<le> n \<and> n < 2 ^ Suc (ilog2 n)"
proof (induction n rule: ilog2.induct)
  case (1 n)
  show ?case
  proof (cases "n < 2")
    case True
    with "1.prems" show ?thesis by (simp add: ilog2_small)
  next
    case False
    then have "0 < n div 2" by simp
    with "1.IH" False have ih: "2 ^ ilog2 (n div 2) \<le> n div 2" "n div 2 < 2 ^ Suc (ilog2 (n div 2))"
      by simp_all
    from False have e: "ilog2 n = Suc (ilog2 (n div 2))" by (simp add: ilog2_large)
    from ih(1) have "2 * 2 ^ ilog2 (n div 2) \<le> n" by linarith
    moreover from ih(2) have "n < 2 * 2 ^ Suc (ilog2 (n div 2))" by linarith
    ultimately show ?thesis by (simp add: e)
  qed
qed

lemma exponent_bounds:
  assumes "0 < x"
  shows "2 powi binary_exponent x \<le> x \<and> x < 2 powi (binary_exponent x + 1)"
proof (cases "1 \<le> x")
  case True
  define n where "n = nat \<lfloor>x\<rfloor>"
  from True have "0 < \<lfloor>x\<rfloor>" by linarith
  then have n: "0 < n" "real n \<le> x" "x < real n + 1"
    unfolding n_def by (simp, linarith, linarith)
  from ilog2_bounds [OF n(1)] have b: "2 ^ ilog2 n \<le> n" "n + 1 \<le> 2 ^ Suc (ilog2 n)"
    by simp_all
  have e: "binary_exponent x = int (ilog2 n)"
    using True by (simp add: binary_exponent_def n_def)
  have "real (2 ^ ilog2 n) \<le> real n"
    using b(1) by (rule of_nat_mono)
  then have 1: "(2::real) ^ ilog2 n \<le> real n" by simp
  have "real (n + 1) \<le> real (2 ^ Suc (ilog2 n))"
    using b(2) by (rule of_nat_mono)
  then have 2: "real n + 1 \<le> (2::real) ^ Suc (ilog2 n)" by simp
  have "int (ilog2 n) + 1 = int (Suc (ilog2 n))" by simp
  then have 3: "(2::real) powi (int (ilog2 n) + 1) = 2 ^ Suc (ilog2 n)"
    by (simp only: power_int_of_nat)
  have "(2::real) powi int (ilog2 n) \<le> x"
    unfolding power_int_of_nat using 1 n(2) by linarith
  moreover have "x < (2::real) powi (int (ilog2 n) + 1)"
    using 2 n(3) unfolding 3 by linarith
  ultimately show ?thesis
    unfolding e by blast
next
  case False
  define m where "m = nat \<lceil>1 / x\<rceil>"
  from False assms have "1 < 1 / x" by simp
  then have c: "2 \<le> \<lceil>1 / x\<rceil>" by linarith
  then have m: "2 \<le> m" "1 / x \<le> real m" "real m - 1 < 1 / x"
    unfolding m_def by (linarith, linarith, linarith)
  define i where "i = ilog2 (m - 1)"
  from ilog2_bounds [of "m - 1"] m(1) have b: "2 ^ i \<le> m - 1" "m \<le> 2 ^ Suc i"
    unfolding i_def by (simp, linarith)
  have e: "binary_exponent x = - int (Suc i)"
    using False by (simp add: binary_exponent_def m_def i_def)
  have "real m \<le> real (2 ^ Suc i)"
    using b(2) by (rule of_nat_mono)
  then have "real m \<le> (2::real) ^ Suc i" by simp
  with m(2) have "1 / x \<le> 2 ^ Suc i" by linarith
  with assms have 1: "1 / 2 ^ Suc i \<le> x"
    by (simp add: field_simps)
  have "real (2 ^ i) \<le> real (m - 1)"
    using b(1) by (rule of_nat_mono)
  then have "(2::real) ^ i \<le> real m - 1"
    using m(1) by (simp add: of_nat_diff)
  with m(3) have "2 ^ i < 1 / x" by linarith
  with assms have 2: "x < 1 / 2 ^ i"
    by (simp add: field_simps)
  have "(2::real) powi (- int (Suc i)) = 1 / 2 ^ Suc i"
    by (simp only: power_int_minus_divide power_int_of_nat)
  moreover have "(2::real) powi (- int (Suc i) + 1) = 1 / 2 ^ i"
  proof -
    have "- int (Suc i) + 1 = - int i" by simp
    then show ?thesis by (simp only: power_int_minus_divide power_int_of_nat)
  qed
  ultimately show ?thesis
    using 1 2 unfolding e by (simp only:)
qed

lemma exponent_less:
  assumes "0 < x" and "x < 2 powi b"
  shows "binary_exponent x < b"
proof (rule ccontr)
  assume "\<not> binary_exponent x < b"
  then have "(2::real) powi b \<le> 2 powi binary_exponent x"
    by (intro power_int_increasing) simp_all
  with exponent_bounds [OF assms(1)] assms(2) show False by linarith
qed

lemma round_half_even_bounds:
  "\<lfloor>q\<rfloor> \<le> round_half_even q" "of_int (round_half_even q) \<le> q + 1 / 2"
  unfolding round_half_even_def by (simp_all; linarith)+

lemma double_multiple:
  assumes "is_double s" and "0 < s"
  shows "s = of_int (round_half_even (s / ulp s)) * ulp s"
  using assms by (simp add: is_double_def round_double_def split: if_splits)


lemma power_two_inverse:
  assumes "j \<le> 0"
  shows "(2::real) powi j * 2 ^ nat (- j) = 1"
proof -
  have "(2::real) powi j = 2 powi (- int (nat (- j)))"
    using assms by simp
  also have "\<dots> = 1 / 2 ^ nat (- j)"
    by (simp only: power_int_minus_divide power_int_of_nat)
  finally show ?thesis by simp
qed

lemma floor_div_60:
  assumes dbl: "is_double s" and pos: "0 < s" and bound: "s < 2 ^ 53"
  shows "\<exists>y. round_double (s / 60) = Finite y \<and> \<lfloor>y\<rfloor> = \<lfloor>s / 60\<rfloor>"
proof -
  define x where "x = s / 60"
  define es where "es = binary_exponent s"
  define ex where "ex = binary_exponent x"
  define ju where "ju = max ex (- 1022) - 52"
  define u where "u = ulp x"
  define w where "w = ulp s"
  define k where "k = \<lfloor>x\<rfloor>"
  define n where "n = round_half_even (x / u)"
  define a where "a = nat (- ju)"
  have xpos: "0 < x" using pos by (simp add: x_def)
  have k0: "0 \<le> k" using xpos by (simp add: k_def)
  have kx: "of_int k \<le> x" "x < of_int k + 1"
    unfolding k_def by linarith+
  have bs: "2 powi es \<le> s" "s < 2 powi (es + 1)"
    using exponent_bounds [OF pos] by (simp_all add: es_def)
  have bx: "2 powi ex \<le> x" "x < 2 powi (ex + 1)"
    using exponent_bounds [OF xpos] by (simp_all add: ex_def)
  have "s < 2 powi 53" using bound by simp
  then have "es < 53" unfolding es_def by (rule exponent_less [OF pos])
  then have es: "es \<le> 52" by simp
  have "(2::real) powi (es - 4) = 2 powi (es + 1) / 2 powi 5"
    using power_int_diff [of "2::real" "es + 1" 5] by simp
  then have "s / 32 < 2 powi (es - 4)"
    using bs(2) by simp
  moreover have "x < s / 32" using pos by (simp add: x_def)
  ultimately have "x < 2 powi (es - 4)" by simp
  then have "ex < es - 4" unfolding ex_def by (rule exponent_less [OF xpos])
  then have ex: "ex + 5 \<le> es" by simp
  have ju: "ju \<le> - 5" using ex es by (simp add: ju_def)
  have u: "u = 2 powi ju" by (simp add: u_def ulp_def ju_def ex_def)
  have upos: "0 < u" by (simp add: u)
  have ua: "u * 2 ^ a = 1"
    unfolding u a_def by (rule power_two_inverse) (use ju in simp)
  have xu: "x / u = x * 2 ^ a"
    using ua upos by (simp add: field_simps)
  have "u \<le> 2 powi (- 5)"
    unfolding u by (rule power_int_increasing) (use ju in simp_all)
  then have u32: "u \<le> 1 / 32" by (simp add: power_int_minus_divide)
  \<comment> \<open>the rounded quotient is not below \<open>k\<close>\<close>
  have "of_int (k * 2 ^ a) \<le> x / u"
    unfolding xu using kx(1) by simp
  then have "k * 2 ^ a \<le> \<lfloor>x / u\<rfloor>" by (simp add: le_floor_iff)
  with round_half_even_bounds(1) [of "x / u"] have "k * 2 ^ a \<le> n"
    unfolding n_def by linarith
  then have "(of_int (k * 2 ^ a) :: real) \<le> of_int n"
    by (simp only: of_int_le_iff)
  then have "of_int (k * 2 ^ a) * u \<le> of_int n * u"
    using upos by (intro mult_right_mono) simp_all
  moreover have "of_int (k * 2 ^ a) * u = of_int k * (u * 2 ^ a)"
    by simp
  ultimately have lower: "of_int k \<le> of_int n * u"
    by (simp only: ua mult_1_right)
  \<comment> \<open>and it is below \<open>k + 1\<close>, as \<open>x\<close> is more than half a unit away from it\<close>
  have gap: "u / 2 < of_int k + 1 - x"
  proof (cases "- 1022 \<le> ex")
    case True
    then have ju': "ju = ex - 52" by (simp add: ju_def)
    have w: "w = 2 powi (es - 52)"
      using True ex by (simp add: w_def ulp_def es_def)
    have "es - 52 = ju + (es - ex)" by (simp add: ju')
    then have "(2::real) powi (es - 52) = 2 powi (ju + (es - ex))" by (rule arg_cong)
    also have "\<dots> = 2 powi ju * 2 powi (es - ex)"
      by (rule power_int_add) simp
    finally have "w = u * 2 powi (es - ex)"
      unfolding w u .
    moreover have "(2::real) powi 5 \<le> 2 powi (es - ex)"
      by (rule power_int_increasing) (use ex in simp_all)
    ultimately have wu: "32 * u \<le> w"
      using upos by (simp add: mult_left_mono mult.commute)
    define b where "b = nat (52 - es)"
    have wb: "w * 2 ^ b = 1"
      unfolding w b_def using power_two_inverse [of "es - 52"] es by simp
    have wpos: "0 < w" by (simp add: w)
    obtain m :: int where m: "s = of_int m * w"
      using double_multiple [OF dbl pos] by (auto simp: w_def)
    have sb: "s * 2 ^ b = of_int m"
      using wb by (simp add: m mult.assoc)
    have eq: "(60 * (of_int k + 1) - s) * 2 ^ b = of_int (60 * (k + 1) * 2 ^ b - m)"
      using sb by (simp add: algebra_simps)
    have "0 < (60 * (of_int k + 1) - s) * 2 ^ b"
      using kx(2) by (simp add: x_def)
    then have "(0::real) < of_int (60 * (k + 1) * 2 ^ b - m)"
      by (simp only: eq)
    then have "0 < 60 * (k + 1) * 2 ^ b - m"
      by (simp only: of_int_0_less_iff)
    then have "1 \<le> 60 * (k + 1) * 2 ^ b - m" by simp
    then have "(1::real) \<le> of_int (60 * (k + 1) * 2 ^ b - m)"
      by (simp only: of_int_1_le_iff)
    then have "1 \<le> (60 * (of_int k + 1) - s) * 2 ^ b"
      by (simp only: eq)
    then have "w * 2 ^ b \<le> (60 * (of_int k + 1) - s) * 2 ^ b"
      by (simp only: wb)
    then have "w \<le> 60 * (of_int k + 1) - s" by simp
    with wu have "32 * u \<le> 60 * (of_int k + 1 - x)"
      by (simp add: x_def)
    with upos show ?thesis by argo
  next
    case False
    then have "ex + 1 \<le> - 1022" by simp
    then have "(2::real) powi (ex + 1) \<le> 2 powi (- 1022)"
      by (intro power_int_increasing) simp_all
    also have "\<dots> \<le> 2 powi (- 1)"
      by (intro power_int_increasing) simp_all
    finally have "x < 1 / 2" using bx(2) by (simp add: power_int_minus_divide)
    with kx(1) k0 u32 show ?thesis by linarith
  qed
  have "x * 2 ^ a + 1 / 2 < (of_int k + 1) * 2 ^ a"
  proof -
    have "(u / 2) * 2 ^ a < (of_int k + 1 - x) * 2 ^ a"
      using gap by simp
    moreover have "(u / 2) * 2 ^ a = (u * 2 ^ a) / 2"
      by simp
    ultimately have "1 / 2 < (of_int k + 1 - x) * 2 ^ a"
      by (simp only: ua)
    then show ?thesis by (simp add: algebra_simps)
  qed
  with round_half_even_bounds(2) [of "x / u"] have "of_int n < (of_int k + 1) * (2::real) ^ a"
    unfolding n_def xu by linarith
  then have "of_int n * u < (of_int k + 1) * 2 ^ a * u"
    using upos by simp
  moreover have "(of_int k + 1) * 2 ^ a * u = (of_int k + 1) * (u * 2 ^ a)"
    by simp
  ultimately have upper: "of_int n * u < of_int k + 1"
    by (simp only: ua mult_1_right)
  have "of_int k + 1 \<le> x + 1" using kx(1) by simp
  also have "\<dots> < 2 ^ 53" using bound pos by (simp add: x_def)
  also have "\<dots> \<le> (2::real) ^ 1024" by simp
  finally have "of_int n * u < 2 ^ 1024" using upper by linarith
  then have "round_double x = Finite (of_int n * u)"
    using xpos by (simp add: round_double_def n_def u_def)
  moreover have "\<lfloor>of_int n * u\<rfloor> = k"
    using lower upper by (simp add: floor_unique)
  ultimately show ?thesis by (simp add: x_def k_def)
qed


lemma floor_div_60_nonneg:
  assumes "is_double s" and "0 \<le> s" and "s < 2 ^ 53"
  shows "\<exists>y. round_double (s / 60) = Finite y \<and> \<lfloor>y\<rfloor> = \<lfloor>s / 60\<rfloor>"
proof (cases "s = 0")
  case True
  then show ?thesis by (simp add: round_double_def)
next
  case False
  with assms(2) have "0 < s" by simp
  with assms(1) show ?thesis using assms(3) by (rule floor_div_60)
qed

declare show_nat.simps [simp del]

lemma show_nat_small: "n < 10 \<Longrightarrow> show_nat n = [''0123456789'' ! n]"
  by (subst show_nat.simps) simp

lemma show_nat_large:
  "10 \<le> n \<Longrightarrow> show_nat n = show_nat (n div 10) @ [''0123456789'' ! (n mod 10)]"
  by (subst show_nat.simps) simp

lemma show_nat_digit: "n < 10 \<Longrightarrow> length (show_nat n) = 1"
  by (subst show_nat.simps) simp

lemma show_nat_two_digits: "10 \<le> n \<Longrightarrow> n < 100 \<Longrightarrow> length (show_nat n) = 2"
proof -
  assume a: "10 \<le> n" "n < 100"
  then have "n div 10 < 10" by simp
  then have "length (show_nat (n div 10)) = 1" by (rule show_nat_digit)
  with a show ?thesis by (subst show_nat.simps) simp
qed

lemma seconds_range:
  fixes x :: real
  shows "0 \<le> \<lfloor>x - 60 * of_int \<lfloor>x / 60\<rfloor>\<rfloor> \<and> \<lfloor>x - 60 * of_int \<lfloor>x / 60\<rfloor>\<rfloor> < 60"
proof -
  have 1: "of_int \<lfloor>x / 60\<rfloor> \<le> x / 60" by (rule of_int_floor_le)
  have 2: "x / 60 < of_int \<lfloor>x / 60\<rfloor> + 1" by linarith
  from 1 have "0 \<le> x - 60 * of_int \<lfloor>x / 60\<rfloor>" by simp
  moreover from 2 have "x - 60 * of_int \<lfloor>x / 60\<rfloor> < 60" by linarith
  ultimately show ?thesis by (simp add: floor_less_iff)
qed

lemma length_zero_padded: "0 \<le> z \<Longrightarrow> z < 60 \<Longrightarrow> length (zero_padded z) = 2"
  by (simp add: zero_padded_def show_int_def show_nat_digit show_nat_two_digits)

lemma to_string_int:
  "\<bar>i\<bar> < 2 ^ 53 \<Longrightarrow> to_string big (Finite (of_int i)) = show_int i"
proof -
  assume "\<bar>i\<bar> < 2 ^ 53"
  then have "\<bar>real_of_int i\<bar> < 2 ^ 53"
    by (metis of_int_abs of_int_less_iff of_int_numeral of_int_power)
  then show ?thesis by simp
qed

lemma formatTime_below_2_53:
  assumes "is_double s" and "0 \<le> s" and "s < 2 ^ 53"
  shows "formatTime big (Finite s) =
           show_int \<lfloor>s / 60\<rfloor> @ '':'' @ zero_padded \<lfloor>real_mod s 60\<rfloor>"
proof -
  obtain y where y: "round_double (s / 60) = Finite y" "\<lfloor>y\<rfloor> = \<lfloor>s / 60\<rfloor>"
    using floor_div_60_nonneg [OF assms] by blast
  have m0: "0 \<le> \<lfloor>s / 60\<rfloor>" using assms(2) by simp
  have "s / 60 < 2 ^ 53" using assms(2,3) by simp
  then have "\<lfloor>s / 60\<rfloor> < 2 ^ 53" by (simp add: floor_less_iff)
  with m0 have mb: "\<bar>\<lfloor>s / 60\<rfloor>\<bar> < 2 ^ 53" by simp
  have mf: "Math_floor (js_div (Finite s) 60) = Finite (of_int \<lfloor>s / 60\<rfloor>)"
    by (simp only: js_div.simps y Math_floor.simps)
  have minutes: "to_string big (Math_floor (js_div (Finite s) 60)) = show_int \<lfloor>s / 60\<rfloor>"
    by (simp only: mf to_string_int [OF mb])
  have r: "js_rem (Finite s) 60 = Finite (real_mod s 60)"
    using assms(2) by (simp add: real_mod_def)
  have z: "0 \<le> \<lfloor>real_mod s 60\<rfloor>" "\<lfloor>real_mod s 60\<rfloor> < 60"
    using seconds_range [of s] by (simp_all add: real_mod_def)
  then have zb: "\<bar>\<lfloor>real_mod s 60\<rfloor>\<bar> < 2 ^ 53" by simp
  have sf: "Math_floor (js_rem (Finite s) 60) = Finite (of_int \<lfloor>real_mod s 60\<rfloor>)"
    by (simp only: r Math_floor.simps)
  have seconds: "to_string big (Math_floor (js_rem (Finite s) 60)) = show_int \<lfloor>real_mod s 60\<rfloor>"
    by (simp only: sf to_string_int [OF zb])
  have less: "js_less (Math_floor (js_rem (Finite s) 60)) 10 \<longleftrightarrow> \<lfloor>real_mod s 60\<rfloor> < 10"
    unfolding sf by simp
  show ?thesis
    unfolding formatTime_def Let_def minutes seconds less zero_padded_def by simp
qed

lemma formatTime_not_finite:
  "formatTime big PosInfinity = ''Infinity:NaN''" "formatTime big NaN = ''NaN:NaN''"
  by (simp_all add: formatTime_def)

lemma doubles: "is_double 65" "is_double 5" "is_double 600"
  by (simp_all add: is_double_def round_double_def round_half_even_def ulp_def
      binary_exponent_def ilog2_small ilog2_large power_int_minus)

lemma formatTime_examples:
  "formatTime big (Finite 65) = ''1:05''" "formatTime big (Finite 5) = ''0:05''"
  "formatTime big (Finite 600) = ''10:00''"
  by (simp_all add: formatTime_below_2_53 doubles real_mod_def zero_padded_def show_int_def
      show_nat_small show_nat_large)

text \<open>
  C8, for the doubles below \<open>2 ^ 53\<close>. For every non-negative number of seconds
  \<open>s\<close> below \<open>2 ^ 53\<close>, \<open>formatTime s\<close> is the floor of \<open>s / 60\<close>, a colon, and the
  floor of \<open>s mod 60\<close> written with a leading zero when it is under 10 and
  without one otherwise; the minutes are not negative and the seconds part lies
  between 0 and 59 and has two characters. In particular \<open>formatTime 65\<close> is
  1:05, \<open>formatTime 5\<close> is 0:05 and \<open>formatTime 600\<close> is 10:00.
\<close>

theorem formatTime_minutes_seconds:
  assumes "is_double s" and "0 \<le> s" and "s < 2 ^ 53"
  shows "formatTime big (Finite s) =
           show_int \<lfloor>s / 60\<rfloor> @ '':'' @ zero_padded \<lfloor>real_mod s 60\<rfloor> \<and>
         0 \<le> \<lfloor>s / 60\<rfloor> \<and> 0 \<le> \<lfloor>real_mod s 60\<rfloor> \<and> \<lfloor>real_mod s 60\<rfloor> < 60 \<and>
         length (zero_padded \<lfloor>real_mod s 60\<rfloor>) = 2 \<and>
         formatTime big (Finite 65) = ''1:05'' \<and> formatTime big (Finite 5) = ''0:05'' \<and>
         formatTime big (Finite 600) = ''10:00''"
proof -
  have m: "0 \<le> \<lfloor>s / 60\<rfloor>"
    using assms(2) by simp
  have z: "0 \<le> \<lfloor>real_mod s 60\<rfloor> \<and> \<lfloor>real_mod s 60\<rfloor> < 60"
    unfolding real_mod_def by (rule seconds_range)
  then have l: "length (zero_padded \<lfloor>real_mod s 60\<rfloor>) = 2"
    by (simp add: length_zero_padded)
  from formatTime_below_2_53 [OF assms, of big] m z l show ?thesis
    by (simp add: formatTime_examples)
qed

theorem formatTime_minutes_seconds_witness:
  "is_double (7325 / 2) \<and> (0::real) \<le> 7325 / 2 \<and> (7325 / 2 :: real) < 2 ^ 53 \<and>
   formatTime (\<lambda>x. []) (Finite (7325 / 2)) = ''61:02'' \<and>
   \<lfloor>real_mod (7325 / 2) 60\<rfloor> = 2 \<and> zero_padded 2 = ''02''"
proof -
  have d: "is_double (7325 / 2)"
    by (simp add: is_double_def round_double_def round_half_even_def ulp_def
        binary_exponent_def ilog2_small ilog2_large power_int_minus)
  have h: "(0::real) \<le> 7325 / 2" "(7325 / 2 :: real) < 2 ^ 53" by simp_all
  have z: "\<lfloor>real_mod (7325 / 2) 60\<rfloor> = 2"
    by (simp add: real_mod_def)
  have m: "\<lfloor>(7325 / 2 :: real) / 60\<rfloor> = 61"
    by simp
  have "zero_padded 2 = ''02''" "show_int 61 = ''61''"
    by (simp_all add: zero_padded_def show_int_def show_nat_small show_nat_large)
  with formatTime_minutes_seconds [OF d h, of "\<lambda>x. []"] d h z m show ?thesis
    by simp
qed

text \<open>
  Above \<open>2 ^ 53\<close> the quotient \<open>s / 60\<close> can round up to the next whole number,
  and the minutes are then one more than the floor of \<open>s / 60\<close>: so it is at
  \<open>2 ^ 56 + 160\<close>.
\<close>

theorem formatTime_minutes_rounded_up:
  "is_double (2 ^ 56 + 160) \<and> (0::real) \<le> 2 ^ 56 + 160 \<and>
   formatTime (\<lambda>x. []) (Finite (2 ^ 56 + 160)) = ''1200959900632135:56'' \<and>
   show_int \<lfloor>(2 ^ 56 + 160 :: real) / 60\<rfloor> @ '':'' @ zero_padded \<lfloor>real_mod (2 ^ 56 + 160) 60\<rfloor> =
     ''1200959900632134:56''"
proof -
  have d: "is_double (2 ^ 56 + 160)"
    by (simp add: is_double_def round_double_def round_half_even_def ulp_def
        binary_exponent_def ilog2_small ilog2_large power_int_minus)
  have q: "round_double ((2 ^ 56 + 160) / 60) = Finite 1200959900632135"
    by (simp add: round_double_def round_half_even_def ulp_def
        binary_exponent_def ilog2_small ilog2_large power_int_minus)
  have jd: "Math_floor (js_div (Finite (2 ^ 56 + 160)) 60) = Finite (of_int 1200959900632135)"
    by (simp only: js_div.simps q) simp
  have jr: "Math_floor (js_rem (Finite (2 ^ 56 + 160)) 60) = Finite (of_int 56)"
    by simp
  have f: "formatTime (\<lambda>x. []) (Finite (2 ^ 56 + 160)) = ''1200959900632135:56''"
    unfolding formatTime_def Let_def jd jr
    by (simp only: to_string_int js_less.simps)
       (simp add: show_int_def show_nat_small show_nat_large)
  have g: "show_int \<lfloor>(2 ^ 56 + 160 :: real) / 60\<rfloor> @ '':'' @
      zero_padded \<lfloor>real_mod (2 ^ 56 + 160) 60\<rfloor> = ''1200959900632134:56''"
    by (simp add: real_mod_def zero_padded_def show_int_def show_nat_small show_nat_large)
  from d f g show ?thesis by simp
qed

section \<open>Debouncing\<close>

lemma hook_run_Nil [simp]: "hook_run rt s [] = s"
  by (simp add: hook_run_def)

lemma hook_run_Cons [simp]: "hook_run rt s (e # evs) = hook_run rt (hook_step rt s e) evs"
  by (simp add: hook_run_def)

lemma hook_run_snoc: "hook_run rt s (evs @ [e]) = hook_step rt (hook_run rt s evs) e"
  by (simp add: hook_run_def)

lemma scheduled_in_range: "1 \<le> d \<Longrightarrow> d < 2 ^ 31 \<Longrightarrow> scheduled rt d = d"
  by (simp add: scheduled_def)

lemma scheduled_ge: "d < 2 ^ 31 \<Longrightarrow> d \<le> scheduled rt d"
  by (cases "d = 0") (simp_all add: scheduled_def)

lemma render_new:
  "lastDeps s \<noteq> Some (v, d) \<Longrightarrow>
   render rt v d s = s\<lparr>lastDeps := Some (v, d), timeout := Some (scheduled rt d, v)\<rparr>"
  by (simp add: render_def)

lemma render_same: "lastDeps s = Some (v, d) \<Longrightarrow> render rt v d s = s"
  by (simp add: render_def)

lemma render_debouncedValue [simp]: "debouncedValue (render rt v d s) = debouncedValue s"
  by (simp add: render_def)

lemma elapse_add: "elapse u (elapse t s) = elapse (t + u) s"
  by (cases "timeout s") (auto simp: elapse_def)

lemma elapse_before:
  "timeout s = Some (r, v) \<Longrightarrow> t < r \<Longrightarrow> elapse t s = s\<lparr>timeout := Some (r - t, v)\<rparr>"
  by (simp add: elapse_def)

lemma elapse_fire:
  "timeout s = Some (r, v) \<Longrightarrow> r \<le> t \<Longrightarrow> elapse t s = s\<lparr>debouncedValue := v, timeout := None\<rparr>"
  by (simp add: elapse_def)

lemma elapse_changes:
  assumes "debouncedValue (elapse t s) \<noteq> debouncedValue s"
  shows "\<exists>r. timeout s = Some (r, debouncedValue (elapse t s)) \<and> r \<le> t"
  using assms by (auto simp: elapse_def split: option.splits if_splits)

text \<open>
  What holds of the hook after any events: the effect last ran with the
  arguments of the last render, and a pending timeout carries the value of
  those arguments and has run for as long as they have been unchanged.
\<close>

lemma hook_invariant:
  assumes "lastDeps s = Some inp"
    and "\<And>r v. timeout s = Some (r, v) \<Longrightarrow> v = fst inp \<and> r + acc = scheduled rt (snd inp)"
  shows "lastDeps (hook_run rt s evs) = Some (last_args inp evs) \<and>
         (\<forall>r v. timeout (hook_run rt s evs) = Some (r, v) \<longrightarrow>
            v = fst (last_args inp evs) \<and>
            r + unchanged_for inp acc evs = scheduled rt (snd (last_args inp evs)))"
  using assms
proof (induction evs arbitrary: s inp acc)
  case Nil
  then show ?case by simp
next
  case (Cons e evs)
  show ?case
  proof (cases e)
    case (Render v d)
    show ?thesis
    proof (cases "(v, d) = inp")
      case True
      with Cons.prems(1) have "hook_step rt s e = s" by (simp add: Render render_same)
      with Cons.IH [of s inp acc] Cons.prems True show ?thesis by (simp add: Render)
    next
      case False
      with Cons.prems(1)
      have s': "hook_step rt s e = s\<lparr>lastDeps := Some (v, d), timeout := Some (scheduled rt d, v)\<rparr>"
        by (simp add: Render render_new)
      have "lastDeps (hook_run rt (hook_step rt s e) evs) = Some (last_args (v, d) evs) \<and>
         (\<forall>r w. timeout (hook_run rt (hook_step rt s e) evs) = Some (r, w) \<longrightarrow>
            w = fst (last_args (v, d) evs) \<and>
            r + unchanged_for (v, d) 0 evs = scheduled rt (snd (last_args (v, d) evs)))"
        by (rule Cons.IH) (simp_all add: s')
      with False show ?thesis by (simp add: Render)
    qed
  next
    case (Elapse t)
    have 1: "lastDeps (hook_step rt s e) = Some inp"
      using Cons.prems(1) by (auto simp: Elapse elapse_def split: option.splits)
    have 2: "w = fst inp \<and> r + (acc + t) = scheduled rt (snd inp)"
      if "timeout (hook_step rt s e) = Some (r, w)" for r w
    proof -
      from that obtain r0 where r0: "timeout s = Some (r0, w)" "t < r0" "r = r0 - t"
        by (auto simp: Elapse elapse_def split: option.splits if_splits)
      with Cons.prems(2) [of r0 w] show ?thesis by simp
    qed
    have "lastDeps (hook_run rt (hook_step rt s e) evs) = Some (last_args inp evs) \<and>
         (\<forall>r w. timeout (hook_run rt (hook_step rt s e) evs) = Some (r, w) \<longrightarrow>
            w = fst (last_args inp evs) \<and>
            r + unchanged_for inp (acc + t) evs = scheduled rt (snd (last_args inp evs)))"
      using 1 2 by (rule Cons.IH)
    then show ?thesis by (simp add: Elapse)
  qed
qed

lemma first_render_eq:
  "first_render rt v d =
     \<lparr>debouncedValue = v, lastDeps = Some (v, d), timeout = Some (scheduled rt d, v)\<rparr>"
  by (simp add: first_render_def render_def)

lemma reachable_invariant:
  "lastDeps (hook_run rt (first_render rt v0 d0) evs) = Some (last_args (v0, d0) evs) \<and>
   (\<forall>r v. timeout (hook_run rt (first_render rt v0 d0) evs) = Some (r, v) \<longrightarrow>
      v = fst (last_args (v0, d0) evs) \<and>
      r + unchanged_for (v0, d0) 0 evs = scheduled rt (snd (last_args (v0, d0) evs)))"
  by (rule hook_invariant) (simp_all add: first_render_eq)

lemma output_change:
  assumes "debouncedValue (hook_step rt (hook_run rt (first_render rt v0 d0) evs) e) \<noteq>
           debouncedValue (hook_run rt (first_render rt v0 d0) evs)"
    and "snd (last_args (v0, d0) evs) < 2 ^ 31"
  shows "(\<exists>t. e = Elapse t \<and> snd (last_args (v0, d0) evs) \<le> unchanged_for (v0, d0) 0 evs + t) \<and>
         debouncedValue (hook_step rt (hook_run rt (first_render rt v0 d0) evs) e) =
           fst (last_args (v0, d0) evs)"
proof (cases e)
  case (Render v d)
  with assms show ?thesis by simp
next
  case (Elapse t)
  let ?s = "hook_run rt (first_render rt v0 d0) evs"
  from assms obtain r where r: "timeout ?s = Some (r, debouncedValue (elapse t ?s))" "r \<le> t"
    using elapse_changes [of t ?s] by (auto simp: Elapse)
  with reachable_invariant [of rt v0 d0 evs]
  have "debouncedValue (elapse t ?s) = fst (last_args (v0, d0) evs)"
    and "r + unchanged_for (v0, d0) 0 evs = scheduled rt (snd (last_args (v0, d0) evs))"
    by blast+
  with r(2) scheduled_ge [OF assms(2), of rt] show ?thesis by (auto simp: Elapse)
qed

lemma window:
  assumes new: "lastDeps s \<noteq> Some (v1, d)" and ne: "v1 \<noteq> v2" and t: "t < d"
    and d: "d < 2 ^ 31"
  shows "debouncedValue (hook_run rt s [Render v1 d]) = debouncedValue s"
    and "debouncedValue (hook_run rt s [Render v1 d, Elapse t]) = debouncedValue s"
    and "debouncedValue (hook_run rt s [Render v1 d, Elapse t, Render v2 d]) = debouncedValue s"
    and "debouncedValue (hook_run rt s [Render v1 d, Elapse t, Render v2 d, Elapse u]) =
           (if d \<le> u then v2 else debouncedValue s)"
    and "timeout (hook_run rt s [Render v1 d]) = Some (d, v1)"
    and "timeout (hook_run rt s [Render v1 d, Elapse t, Render v2 d]) = Some (d, v2)"
proof -
  let ?s1 = "s\<lparr>lastDeps := Some (v1, d), timeout := Some (d, v1)\<rparr>"
  let ?s2 = "?s1\<lparr>timeout := Some (d - t, v1)\<rparr>"
  let ?s3 = "?s2\<lparr>lastDeps := Some (v2, d), timeout := Some (d, v2)\<rparr>"
  have sd: "scheduled rt d = d" using t d by (simp add: scheduled_in_range)
  have 1: "render rt v1 d s = ?s1" using new by (simp add: render_new sd)
  have 2: "elapse t ?s1 = ?s2" using t by (simp add: elapse_def)
  have 3: "render rt v2 d ?s2 = ?s3" using ne by (simp add: render_def sd)
  have 4: "debouncedValue (elapse u ?s3) = (if d \<le> u then v2 else debouncedValue s)"
    by (simp add: elapse_def)
  have r1: "hook_run rt s [Render v1 d] = ?s1"
    by (simp add: 1)
  have r2: "hook_run rt s [Render v1 d, Elapse t] = ?s2"
    by (simp only: hook_run_Cons hook_run_Nil hook_step.simps 1 2)
  have r3: "hook_run rt s [Render v1 d, Elapse t, Render v2 d] = ?s3"
    by (simp only: hook_run_Cons hook_run_Nil hook_step.simps 1 2 3)
  have r4: "hook_run rt s [Render v1 d, Elapse t, Render v2 d, Elapse u] = elapse u ?s3"
    by (simp only: hook_run_Cons hook_run_Nil hook_step.simps 1 2 3)
  show "debouncedValue (hook_run rt s [Render v1 d]) = debouncedValue s"
    unfolding r1 by simp
  show "debouncedValue (hook_run rt s [Render v1 d, Elapse t]) = debouncedValue s"
    unfolding r2 by simp
  show "debouncedValue (hook_run rt s [Render v1 d, Elapse t, Render v2 d]) = debouncedValue s"
    unfolding r3 by simp
  show "debouncedValue (hook_run rt s [Render v1 d, Elapse t, Render v2 d, Elapse u]) =
           (if d \<le> u then v2 else debouncedValue s)"
    unfolding r4 by (rule 4)
  show "timeout (hook_run rt s [Render v1 d]) = Some (d, v1)"
    unfolding r1 by simp
  show "timeout (hook_run rt s [Render v1 d, Elapse t, Render v2 d]) = Some (d, v2)"
    unfolding r3 by simp
qed

text \<open>
  C9, as the hook has it, for a delay below \<open>2 ^ 31\<close> milliseconds. A render with
  new arguments clears the pending timeout and sets one with the full delay.
  When a new value \<open>v1\<close> is followed, before the delay has elapsed, by another
  value \<open>v2\<close>, the hook keeps returning what it returned before \<open>v1\<close> came until
  the delay has elapsed after \<open>v2\<close>, and returns \<open>v2\<close> from then on; so it never
  returns \<open>v1\<close> unless it returned \<open>v1\<close> already. The value of the first render
  is returned at once. After that, the returned value changes only when time
  passes, to the value of the last render, and only when the arguments have
  been unchanged for the full delay.
\<close>

theorem debounce_window:
  assumes "lastDeps s \<noteq> Some (v1, d)" and "v1 \<noteq> v2" and "t < d" and "d < 2 ^ 31"
  shows "timeout (hook_run rt s [Render v1 d]) = Some (d, v1) \<and>
         timeout (hook_run rt s [Render v1 d, Elapse t, Render v2 d]) = Some (d, v2) \<and>
         debouncedValue (hook_run rt s [Render v1 d]) = debouncedValue s \<and>
         debouncedValue (hook_run rt s [Render v1 d, Elapse t]) = debouncedValue s \<and>
         debouncedValue (hook_run rt s [Render v1 d, Elapse t, Render v2 d]) = debouncedValue s \<and>
         debouncedValue (hook_run rt s [Render v1 d, Elapse t, Render v2 d, Elapse u]) =
           (if d \<le> u then v2 else debouncedValue s) \<and>
         (debouncedValue s \<noteq> v1 \<longrightarrow>
            debouncedValue (hook_run rt s [Render v1 d]) \<noteq> v1 \<and>
            debouncedValue (hook_run rt s [Render v1 d, Elapse t]) \<noteq> v1 \<and>
            debouncedValue (hook_run rt s [Render v1 d, Elapse t, Render v2 d]) \<noteq> v1 \<and>
            debouncedValue (hook_run rt s [Render v1 d, Elapse t, Render v2 d, Elapse u]) \<noteq> v1) \<and>
         debouncedValue (first_render rt v0 d0) = v0 \<and>
         (snd (last_args (v0, d0) evs) < 2 ^ 31 \<and>
          debouncedValue (hook_step rt (hook_run rt (first_render rt v0 d0) evs) e) \<noteq>
            debouncedValue (hook_run rt (first_render rt v0 d0) evs) \<longrightarrow>
          (\<exists>w. e = Elapse w \<and>
               snd (last_args (v0, d0) evs) \<le> unchanged_for (v0, d0) 0 evs + w) \<and>
          debouncedValue (hook_step rt (hook_run rt (first_render rt v0 d0) evs) e) =
            fst (last_args (v0, d0) evs))"
proof -
  note w = window [OF assms, of rt]
  have "debouncedValue (hook_run rt s [Render v1 d, Elapse t, Render v2 d, Elapse u]) \<noteq> v1"
    if "debouncedValue s \<noteq> v1"
    using that assms(2) by (simp only: w(4) split: if_splits) simp
  moreover have "debouncedValue (first_render rt v0 d0) = v0"
    by (simp add: first_render_eq)
  ultimately show ?thesis
    using w(1,2,3,5,6) w(4) [of u] output_change [of rt v0 d0 evs e] by (simp only:) blast
qed

theorem debounce_window_witness:
  "lastDeps (first_render (\<lambda>d. 1) (0::nat) 500) \<noteq> Some (1, 500) \<and> (1::nat) \<noteq> 2 \<and>
   (100::nat) < 500 \<and> (500::nat) < 2 ^ 31 \<and>
   debouncedValue (first_render (\<lambda>d. 1) (0::nat) 500) \<noteq> 1 \<and>
   debouncedValue (hook_run (\<lambda>d. 1) (first_render (\<lambda>d. 1) (0::nat) 500)
     [Render 1 500, Elapse 100, Render 2 500]) = 0 \<and>
   debouncedValue (hook_run (\<lambda>d. 1) (first_render (\<lambda>d. 1) (0::nat) 500)
     [Render 1 500, Elapse 100, Render 2 500, Elapse 500]) = 2 \<and>
   snd (last_args (0::nat, 500) [Render 1 500, Elapse 100, Render 2 500]) < 2 ^ 31 \<and>
   debouncedValue (hook_step (\<lambda>d. 1)
       (hook_run (\<lambda>d. 1) (first_render (\<lambda>d. 1) (0::nat) 500)
          [Render 1 500, Elapse 100, Render 2 500]) (Elapse 500)) \<noteq>
     debouncedValue (hook_run (\<lambda>d. 1) (first_render (\<lambda>d. 1) (0::nat) 500)
       [Render 1 500, Elapse 100, Render 2 500]) \<and>
   snd (last_args (0::nat, 500) [Render 1 500, Elapse 100, Render 2 500]) \<le>
     unchanged_for (0::nat, 500) 0 [Render 1 500, Elapse 100, Render 2 500] + 500"
proof -
  have h: "lastDeps (first_render (\<lambda>d. 1) (0::nat) 500) \<noteq> Some (1, 500)" "(1::nat) \<noteq> 2"
    "(100::nat) < 500" "(500::nat) < 2 ^ 31"
    by (simp_all add: first_render_eq)
  have c: "debouncedValue (hook_step (\<lambda>d. 1)
       (hook_run (\<lambda>d. 1) (first_render (\<lambda>d. 1) (0::nat) 500)
          [Render 1 500, Elapse 100, Render 2 500]) (Elapse 500)) \<noteq>
     debouncedValue (hook_run (\<lambda>d. 1) (first_render (\<lambda>d. 1) (0::nat) 500)
       [Render 1 500, Elapse 100, Render 2 500])"
    by (simp add: first_render_eq render_def elapse_def scheduled_def)
  have n: "debouncedValue (first_render (\<lambda>d. 1) (0::nat) 500) \<noteq> 1"
    by (simp add: first_render_eq)
  have b: "snd (last_args (0::nat, 500) [Render 1 500, Elapse 100, Render 2 500]) < 2 ^ 31"
    by simp
  from debounce_window [OF h, of "\<lambda>d. 1" 500 "0::nat" 500
      "[Render 1 500, Elapse 100, Render 2 500]" "Elapse 500"] h c n b
  show ?thesis by (simp add: first_render_eq render_def elapse_def scheduled_def)
qed

text \<open>
  The hook does return \<open>v1\<close> while \<open>v1\<close> is followed by \<open>v2\<close> within the delay,
  when \<open>v1\<close> is what it returned already: \<open>v1\<close> is the value of the first render,
  or \<open>v1\<close> comes back before the value in between was passed on.
\<close>

theorem debounce_first_value_observed:
  "debouncedValue (first_render (\<lambda>d. 1) (1::nat) 500) = 1 \<and>
   debouncedValue (hook_run (\<lambda>d. 1) (first_render (\<lambda>d. 1) (1::nat) 500)
     [Elapse 100, Render 2 500]) = 1 \<and>
   debouncedValue (hook_run (\<lambda>d. 1) (first_render (\<lambda>d. 1) (1::nat) 500)
     [Render 0 500, Elapse 100, Render 1 500, Elapse 100, Render 2 500]) = 1"
  by (simp add: first_render_eq render_def elapse_def scheduled_def)

end
